theory Spec2Isabelle
  imports Complex_Main "HOL-Library.Word" "HOL-Library.Log_Nat" "HOL-Library.Multiset"
begin

unbundle bit_operations_syntax

section \<open>Machine types of system_monitor.cpp\<close>

text \<open>
  The program is a Win32 console program (it includes \<open>windows.h\<close>), so \<open>DWORD\<close>,
  \<open>unsigned long\<close> and \<open>unsigned int\<close> are 32-bit and \<open>unsigned long long\<close> is
  64-bit. Arithmetic on them wraps, as the arithmetic of \<open>word\<close> does.
\<close>

type_synonym DWORD = "32 word"
type_synonym ull = "64 word"

subsection \<open>The type double\<close>

text \<open>
  A \<open>double\<close> is a finite binary64 number, an infinity or a NaN. Finite values are kept
  as the rational they denote; every operation rounds its exact result to the nearest
  binary64 number, ties to even (53 significant bits, least exponent \<open>-1074\<close>, overflow to
  an infinity from \<open>2 ^ 1024\<close> on), as an evaluation in binary64 does. The sign of a
  zero is not kept: the program only compares its doubles with each other and with
  \<open>0.0\<close>, and \<open>-0.0 == 0.0\<close> in C++.
\<close>

datatype dbl = Fin rat | PInf | NInf | NaN

definition pow2 :: "int \<Rightarrow> rat" where
  "pow2 k = (if 0 \<le> k then 2 ^ nat k else 1 / 2 ^ nat (- k))"

definition ilog2 :: "rat \<Rightarrow> int" where
  \<comment> \<open>for \<open>0 < x\<close>: the exponent \<open>e\<close> with \<open>2 ^ e \<le> x < 2 ^ (e + 1)\<close>\<close>
  "ilog2 x = (let (n, d) = quotient_of x; k = bitlen n - bitlen d
              in if pow2 k \<le> x then k else k - 1)"

definition round_half_even :: "rat \<Rightarrow> int" where
  "round_half_even x =
     (let f = \<lfloor>x\<rfloor>; r = x - of_int f
      in if r < 1 / 2 then f else if 1 / 2 < r then f + 1 else if even f then f else f + 1)"

definition round_binary64 :: "rat \<Rightarrow> dbl" where
  "round_binary64 x =
     (if x = 0 then Fin 0
      else let a = \<bar>x\<bar>;
               q = max (ilog2 a - 52) (- 1074);
               m = round_half_even (a / pow2 q)
           in if 971 < q \<or> (q = 971 \<and> 2 ^ 53 \<le> m) then (if 0 < x then PInf else NInf)
              else Fin (if 0 < x then of_int m * pow2 q else - (of_int m * pow2 q)))"

fun dmul :: "dbl \<Rightarrow> dbl \<Rightarrow> dbl" where
  "dmul (Fin a) (Fin b) = round_binary64 (a * b)"
| "dmul NaN _ = NaN"
| "dmul _ NaN = NaN"
| "dmul (Fin a) PInf = (if a = 0 then NaN else if 0 < a then PInf else NInf)"
| "dmul (Fin a) NInf = (if a = 0 then NaN else if 0 < a then NInf else PInf)"
| "dmul PInf (Fin b) = (if b = 0 then NaN else if 0 < b then PInf else NInf)"
| "dmul NInf (Fin b) = (if b = 0 then NaN else if 0 < b then NInf else PInf)"
| "dmul PInf PInf = PInf"
| "dmul PInf NInf = NInf"
| "dmul NInf PInf = NInf"
| "dmul NInf NInf = PInf"

fun ddiv :: "dbl \<Rightarrow> dbl \<Rightarrow> dbl" where
  "ddiv (Fin a) (Fin b) =
     (if b = 0 then (if a = 0 then NaN else if 0 < a then PInf else NInf)
      else round_binary64 (a / b))"
| "ddiv NaN _ = NaN"
| "ddiv _ NaN = NaN"
| "ddiv (Fin a) PInf = Fin 0"
| "ddiv (Fin a) NInf = Fin 0"
| "ddiv PInf (Fin b) = (if 0 \<le> b then PInf else NInf)"
| "ddiv NInf (Fin b) = (if 0 \<le> b then NInf else PInf)"
| "ddiv PInf PInf = NaN"
| "ddiv PInf NInf = NaN"
| "ddiv NInf PInf = NaN"
| "ddiv NInf NInf = NaN"

fun dless :: "dbl \<Rightarrow> dbl \<Rightarrow> bool" where
  "dless (Fin a) (Fin b) = (a < b)"
| "dless NaN _ = False"
| "dless _ NaN = False"
| "dless (Fin a) PInf = True"
| "dless (Fin a) NInf = False"
| "dless PInf _ = False"
| "dless NInf (Fin b) = True"
| "dless NInf PInf = True"
| "dless NInf NInf = False"

definition to_double :: "'a::len word \<Rightarrow> dbl" where
  \<comment> \<open>the conversion \<open>(double)\<close> of an unsigned integer\<close>
  "to_double w = round_binary64 (of_int (uint w))"

section \<open>Data\<close>

record ProcInfo =
  pid :: DWORD
  name :: string
  cpuPercent :: dbl

record FILETIME =
  dwLowDateTime :: DWORD
  dwHighDateTime :: DWORD

record PROCESSENTRY32 =
  th32ProcessID :: DWORD
  szExeFile :: string

type_synonym times = "DWORD \<rightharpoonup> ull"

text \<open>
  The maps of the program are objects that \<open>SnapshotProcesses\<close> receives by reference:
  \<open>prevTimes\<close> and \<open>curTimes\<close> of \<open>main\<close>, and \<open>tmp\<close> of the initial snapshot. A store
  gives each object its content, so that a write through one reference is seen through
  every reference to the same object.
\<close>

datatype map_object = Obj_prevTimes | Obj_curTimes | Obj_tmp

type_synonym store = "map_object \<Rightarrow> times"

subsection \<open>What the operating system answers\<close>

text \<open>
  \<open>Toolhelp\<close> is the outcome of \<open>CreateToolhelp32Snapshot\<close>, \<open>Process32First\<close> and the
  \<open>Process32Next\<close> calls of one enumeration: the snapshot handle is invalid, or there is no
  first entry, or there are a first entry and the entries that follow it.
  A process handle is identified with what \<open>GetProcessTimes\<close> answers on it: \<open>None\<close> when
  the call fails, else the kernel and the user time. \<open>OpenProcess os i p\<close> is the answer to
  the call that the \<open>i\<close>-th iteration of the reading loop makes for identifier \<open>p\<close>;
  \<open>None\<close> is the null handle.
\<close>

datatype Toolhelp = InvalidHandle | NoFirst | Entries PROCESSENTRY32 "PROCESSENTRY32 list"

type_synonym HANDLE = "(FILETIME \<times> FILETIME) option"

record os =
  CreateToolhelp32Snapshot :: Toolhelp
  dwNumberOfProcessors :: DWORD
  OpenProcess :: "nat \<Rightarrow> DWORD \<Rightarrow> HANDLE option"

section \<open>Sampling\<close>

definition FileTimeToULL :: "FILETIME \<Rightarrow> ull" where
  "FileTimeToULL ft = push_bit 32 (ucast (dwHighDateTime ft)) OR ucast (dwLowDateTime ft)"

definition GetProcTime100ns :: "HANDLE \<Rightarrow> ull option" where
  "GetProcTime100ns hProc =
     (case hProc of
        None \<Rightarrow> None
      | Some (ftKernel, ftUser) \<Rightarrow> Some (FileTimeToULL ftKernel + FileTimeToULL ftUser))"

definition deltaMs :: "DWORD \<Rightarrow> DWORD \<Rightarrow> DWORD" where
  \<comment> \<open>line 74; the first argument is \<open>prevTick\<close>\<close>
  "deltaMs prevTick curTick =
     (if curTick \<ge> prevTick then curTick - prevTick else 0xFFFFFFFF - prevTick + curTick)"

definition usage :: "ull \<Rightarrow> ull \<Rightarrow> DWORD \<Rightarrow> DWORD \<Rightarrow> dbl" where
  \<comment> \<open>lines 96 to 101, for a previous counter \<open>prev100ns\<close> and \<open>deltaMs > 0\<close>\<close>
  "usage t100ns prev100ns dMs numCores =
     (let deltaProc = (if t100ns > prev100ns then t100ns - prev100ns else 0);
          wall100ns = dmul (to_double dMs) (Fin 10000);
          u = dmul (ddiv (to_double deltaProc) (dmul wall100ns (to_double numCores))) (Fin 100)
      in if dless u (Fin 0) then Fin 0 else u)"

definition entry :: "PROCESSENTRY32 \<Rightarrow> ProcInfo" where
  \<comment> \<open>the body of the enumeration loop, lines 66 to 70\<close>
  "entry pe = \<lparr>pid = th32ProcessID pe, name = szExeFile pe, cpuPercent = Fin 0\<rparr>"

definition visit ::
  "os \<Rightarrow> map_object \<Rightarrow> map_object \<Rightarrow> DWORD \<Rightarrow> DWORD \<Rightarrow> nat
     \<Rightarrow> ProcInfo list \<times> store \<Rightarrow> ProcInfo list \<times> store" where
  \<comment> \<open>the body of the reading loop, lines 84 to 105, for index \<open>i\<close>\<close>
  "visit env prevTimes outNewTimes dMs numCores i s =
     (let (list, \<sigma>) = s; p = list ! i
      in case OpenProcess env i (pid p) of
           None \<Rightarrow> (list, \<sigma>)
         | Some h \<Rightarrow>
             (case GetProcTime100ns h of
                None \<Rightarrow> (list, \<sigma>)
              | Some t100ns \<Rightarrow>
                  (let \<sigma>' = \<sigma>(outNewTimes := (\<sigma> outNewTimes)(pid p \<mapsto> t100ns))
                   in case \<sigma>' prevTimes (pid p) of
                        None \<Rightarrow> (list, \<sigma>')
                      | Some prev100ns \<Rightarrow>
                          if 0 < dMs
                          then (list[i := p\<lparr>cpuPercent := usage t100ns prev100ns dMs numCores\<rparr>],
                                \<sigma>')
                          else (list, \<sigma>'))))"

definition SnapshotProcesses ::
  "os \<Rightarrow> store \<Rightarrow> map_object \<Rightarrow> DWORD \<Rightarrow> DWORD \<Rightarrow> map_object \<Rightarrow> ProcInfo list \<times> store" where
  "SnapshotProcesses env \<sigma> prevTimes prevTick curTick outNewTimes =
     (case CreateToolhelp32Snapshot env of
        InvalidHandle \<Rightarrow> ([], \<sigma>)
      | NoFirst \<Rightarrow> ([], \<sigma>)
      | Entries pe rest \<Rightarrow>
          (let list = map entry (pe # rest);
               dMs = deltaMs prevTick curTick;
               numCores = (if dwNumberOfProcessors env < 1 then 1 else dwNumberOfProcessors env)
           in fold (visit env prevTimes outNewTimes dMs numCores) [0..<length list] (list, \<sigma>)))"

text \<open>
  Notions used to state what a call returns: the entries that the enumeration loop sees,
  and the counter that iteration \<open>i\<close> of the reading loop obtains for identifier \<open>p\<close>
  (\<open>None\<close> when \<open>OpenProcess\<close> or \<open>GetProcessTimes\<close> fails).
\<close>

definition enumerated :: "os \<Rightarrow> PROCESSENTRY32 list" where
  "enumerated env =
     (case CreateToolhelp32Snapshot env of
        InvalidHandle \<Rightarrow> [] | NoFirst \<Rightarrow> [] | Entries pe rest \<Rightarrow> pe # rest)"

definition read_counter :: "os \<Rightarrow> nat \<Rightarrow> DWORD \<Rightarrow> ull option" where
  "read_counter env i p =
     (case OpenProcess env i p of None \<Rightarrow> None | Some h \<Rightarrow> GetProcTime100ns h)"

text \<open>
  When the map read and the map written are different objects, the reading loop has a
  closed form: \<open>sampled\<close> is the entry that iteration \<open>i\<close> leaves, and \<open>recorded\<close> is the
  written map after the first \<open>k\<close> iterations.
\<close>

definition sampled :: "os \<Rightarrow> times \<Rightarrow> DWORD \<Rightarrow> DWORD \<Rightarrow> nat \<Rightarrow> ProcInfo \<Rightarrow> ProcInfo" where
  "sampled env prev dMs numCores i p =
     (case read_counter env i (pid p) of
        None \<Rightarrow> p
      | Some t100ns \<Rightarrow>
          (case prev (pid p) of
             None \<Rightarrow> p
           | Some prev100ns \<Rightarrow>
               if 0 < dMs then p\<lparr>cpuPercent := usage t100ns prev100ns dMs numCores\<rparr> else p))"

primrec recorded :: "os \<Rightarrow> DWORD list \<Rightarrow> nat \<Rightarrow> times \<Rightarrow> times" where
  "recorded env ps 0 m = m"
| "recorded env ps (Suc k) m =
     (case read_counter env k (ps ! k) of
        None \<Rightarrow> recorded env ps k m
      | Some t100ns \<Rightarrow> (recorded env ps k m)(ps ! k \<mapsto> t100ns))"

section \<open>The session loop of main\<close>

record monitor =
  vars :: store
  prevTick :: DWORD
  sortByCPU :: bool

definition initial_snapshot :: "os \<Rightarrow> DWORD \<Rightarrow> monitor" where
  \<comment> \<open>lines 151 to 160; \<open>tick\<close> is what \<open>GetTickCount\<close> answers\<close>
  "initial_snapshot env tick =
     (let \<sigma> = (\<lambda>_. Map.empty);
          (procs, \<sigma>') = SnapshotProcesses env \<sigma> Obj_tmp tick tick Obj_prevTimes
      in \<lparr>vars = \<sigma>', prevTick = tick, sortByCPU = True\<rparr>)"

definition estimate :: "os \<Rightarrow> DWORD \<Rightarrow> monitor \<Rightarrow> ProcInfo list \<times> monitor" where
  \<comment> \<open>lines 167 and 168\<close>
  "estimate env curTick st =
     (let \<sigma> = (vars st)(Obj_curTimes := Map.empty);
          (procs, \<sigma>') = SnapshotProcesses env \<sigma> Obj_prevTimes (prevTick st) curTick Obj_curTimes
      in (procs, st\<lparr>vars := \<sigma>'\<rparr>))"

definition roll :: "DWORD \<Rightarrow> monitor \<Rightarrow> monitor" where
  \<comment> \<open>lines 170 and 171\<close>
  "roll curTick st =
     st\<lparr>vars := (vars st)(Obj_prevTimes := vars st Obj_curTimes,
                            Obj_curTimes := vars st Obj_prevTimes),
        prevTick := curTick\<rparr>"

definition sample :: "os \<Rightarrow> DWORD \<Rightarrow> monitor \<Rightarrow> ProcInfo list \<times> monitor" where
  "sample env curTick st = (let (procs, st') = estimate env curTick st in (procs, roll curTick st'))"

subsection \<open>Sorting\<close>

text \<open>
  \<open>std::sort\<close> is the library's. The program is built with MinGW GCC 6.3.0 (line 2), whose
  library sorts by introsort: quicksort steps with a median-of-three pivot until a range has
  at most 16 elements or \<open>2 * lg n\<close> levels are used up (then heap sort), and one final
  insertion sort. The functions below are those of the library's \<open>stl_algo.h\<close> and
  \<open>stl_heap.h\<close>, under their names, on a list for the vector and indices for the iterators.
  The unguarded loops of the library do not test the bounds of the range; where such a loop
  would leave the vector, the result here is \<open>None\<close>. \<open>last'\<close> and \<open>cut'\<close> stand for
  the library's \<open>__last\<close> and \<open>__cut\<close>; \<open>shift_insert\<close>, \<open>scan_up\<close>, \<open>scan_down\<close>,
  \<open>sift_down\<close> and \<open>make_heap_from\<close> are the loops inside \<open>__unguarded_linear_insert\<close>,
  \<open>__unguarded_partition\<close>, \<open>__adjust_heap\<close> and \<open>__make_heap\<close>. Distances are natural
  numbers here: \<open>(0 - 1) div 2 = 0\<close> as in the library's signed division, and the test
  \<open>2 \<le> len\<close> of \<open>adjust_heap\<close> stands for \<open>(len - 2) / 2\<close> being negative when \<open>len\<close> is 0.
\<close>

definition lg :: "nat \<Rightarrow> nat" where
  "lg n = nat (bitlen (int n) - 1)"

definition iter_swap :: "'a list \<Rightarrow> nat \<Rightarrow> nat \<Rightarrow> 'a list" where
  "iter_swap a i j = a[i := a ! j, j := a ! i]"

fun shift_insert :: "('a \<Rightarrow> 'a \<Rightarrow> bool) \<Rightarrow> 'a \<Rightarrow> 'a list \<Rightarrow> nat \<Rightarrow> 'a list option" where
  "shift_insert cmp val a 0 = None"
| "shift_insert cmp val a (Suc next) =
     (if cmp val (a ! next) then shift_insert cmp val (a[Suc next := a ! next]) next
      else Some (a[Suc next := val]))"

definition unguarded_linear_insert :: "('a \<Rightarrow> 'a \<Rightarrow> bool) \<Rightarrow> 'a list \<Rightarrow> nat \<Rightarrow> 'a list option" where
  "unguarded_linear_insert cmp a last' = shift_insert cmp (a ! last') a last'"

definition insertion_sort ::
  "('a \<Rightarrow> 'a \<Rightarrow> bool) \<Rightarrow> 'a list \<Rightarrow> nat \<Rightarrow> nat \<Rightarrow> 'a list option" where
  "insertion_sort cmp a first last' =
     (if first = last' then Some a
      else fold (\<lambda>i r. case r of
                   None \<Rightarrow> None
                 | Some a \<Rightarrow>
                     if cmp (a ! i) (a ! first)
                     then Some (take first a @ a ! i # take (i - first) (drop first a) @ drop (Suc i) a)
                     else unguarded_linear_insert cmp a i)
             [first + 1..<last'] (Some a))"

definition unguarded_insertion_sort ::
  "('a \<Rightarrow> 'a \<Rightarrow> bool) \<Rightarrow> 'a list \<Rightarrow> nat \<Rightarrow> nat \<Rightarrow> 'a list option" where
  "unguarded_insertion_sort cmp a first last' =
     fold (\<lambda>i r. case r of None \<Rightarrow> None | Some a \<Rightarrow> unguarded_linear_insert cmp a i)
       [first..<last'] (Some a)"

definition final_insertion_sort ::
  "('a \<Rightarrow> 'a \<Rightarrow> bool) \<Rightarrow> 'a list \<Rightarrow> nat \<Rightarrow> nat \<Rightarrow> 'a list option" where
  "final_insertion_sort cmp a first last' =
     (if 16 < last' - first
      then (case insertion_sort cmp a first (first + 16) of
              None \<Rightarrow> None
            | Some a' \<Rightarrow> unguarded_insertion_sort cmp a' (first + 16) last')
      else insertion_sort cmp a first last')"

definition move_median_to_first ::
  "('a \<Rightarrow> 'a \<Rightarrow> bool) \<Rightarrow> 'a list \<Rightarrow> nat \<Rightarrow> nat \<Rightarrow> nat \<Rightarrow> nat \<Rightarrow> 'a list" where
  "move_median_to_first cmp a result ia ib ic =
     (if cmp (a ! ia) (a ! ib)
      then (if cmp (a ! ib) (a ! ic) then iter_swap a result ib
            else if cmp (a ! ia) (a ! ic) then iter_swap a result ic
            else iter_swap a result ia)
      else if cmp (a ! ia) (a ! ic) then iter_swap a result ia
      else if cmp (a ! ib) (a ! ic) then iter_swap a result ic
      else iter_swap a result ib)"

function scan_up :: "('a \<Rightarrow> 'a \<Rightarrow> bool) \<Rightarrow> 'a list \<Rightarrow> nat \<Rightarrow> nat \<Rightarrow> nat option" where
  "scan_up cmp a pivot i =
     (if length a \<le> i then None
      else if cmp (a ! i) (a ! pivot) then scan_up cmp a pivot (Suc i)
      else Some i)"
  by pat_completeness auto
termination
  by (relation "measure (\<lambda>(cmp, a, pivot, i). length a - i)") auto

fun scan_down :: "('a \<Rightarrow> 'a \<Rightarrow> bool) \<Rightarrow> 'a list \<Rightarrow> nat \<Rightarrow> nat \<Rightarrow> nat option" where
  "scan_down cmp a pivot 0 = (if cmp (a ! pivot) (a ! 0) then None else Some 0)"
| "scan_down cmp a pivot (Suc j) =
     (if cmp (a ! pivot) (a ! Suc j) then scan_down cmp a pivot j else Some (Suc j))"

function unguarded_partition ::
  "('a \<Rightarrow> 'a \<Rightarrow> bool) \<Rightarrow> 'a list \<Rightarrow> nat \<Rightarrow> nat \<Rightarrow> nat \<Rightarrow> ('a list \<times> nat) option" where
  "unguarded_partition cmp a first last' pivot =
     (case scan_up cmp a pivot first of
        None \<Rightarrow> None
      | Some i \<Rightarrow>
          (case last' of
             0 \<Rightarrow> None
           | Suc l \<Rightarrow>
               (case scan_down cmp a pivot l of
                  None \<Rightarrow> None
                | Some j \<Rightarrow>
                    if i < j then unguarded_partition cmp (iter_swap a i j) (Suc i) j pivot
                    else Some (a, i))))"
  by pat_completeness auto
termination
proof (relation "measure (\<lambda>(cmp, a, first, last', pivot). last' - first)", goal_cases)
  case 1
  show ?case by simp
next
  case (2 cmp a first last' pivot i l j)
  have up: "scan_up cmp a pivot m = Some k \<Longrightarrow> m \<le> k" for m k
  proof (induction cmp a pivot m rule: scan_up.induct)
    case (1 cmp a pivot i)
    then show ?case
      by (subst (asm) (2) scan_up.simps) (auto split: if_splits dest: Suc_leD)
  qed
  have down: "scan_down cmp a pivot m = Some k \<Longrightarrow> k \<le> m" for m k
    by (induction m) (auto split: if_splits dest: le_SucI)
  from up [OF 2(1)] down [OF 2(3)] 2(2,4) show ?case by simp
qed

definition unguarded_partition_pivot ::
  "('a \<Rightarrow> 'a \<Rightarrow> bool) \<Rightarrow> 'a list \<Rightarrow> nat \<Rightarrow> nat \<Rightarrow> ('a list \<times> nat) option" where
  "unguarded_partition_pivot cmp a first last' =
     (let mid = first + (last' - first) div 2;
          a' = move_median_to_first cmp a first (first + 1) mid (last' - 1)
      in unguarded_partition cmp a' (first + 1) last' first)"

function push_heap ::
  "('a \<Rightarrow> 'a \<Rightarrow> bool) \<Rightarrow> 'a list \<Rightarrow> nat \<Rightarrow> nat \<Rightarrow> nat \<Rightarrow> 'a \<Rightarrow> 'a list" where
  "push_heap cmp a first holeIndex topIndex val =
     (let parent = (holeIndex - 1) div 2
      in if topIndex < holeIndex \<and> cmp (a ! (first + parent)) val
         then push_heap cmp (a[first + holeIndex := a ! (first + parent)]) first parent topIndex val
         else a[first + holeIndex := val])"
  by pat_completeness auto
termination
  by (relation "measure (\<lambda>(cmp, a, first, holeIndex, topIndex, val). holeIndex)") auto

function sift_down ::
  "('a \<Rightarrow> 'a \<Rightarrow> bool) \<Rightarrow> 'a list \<Rightarrow> nat \<Rightarrow> nat \<Rightarrow> nat \<Rightarrow> 'a list \<times> nat" where
  "sift_down cmp a first len secondChild =
     (if secondChild < (len - 1) div 2
      then (let c = 2 * (secondChild + 1);
                c' = (if cmp (a ! (first + c)) (a ! (first + (c - 1))) then c - 1 else c)
            in sift_down cmp (a[first + secondChild := a ! (first + c')]) first len c')
      else (a, secondChild))"
  by pat_completeness auto
termination
  by (relation "measure (\<lambda>(cmp, a, first, len, secondChild). (len - 1) div 2 - secondChild)") auto

definition adjust_heap ::
  "('a \<Rightarrow> 'a \<Rightarrow> bool) \<Rightarrow> 'a list \<Rightarrow> nat \<Rightarrow> nat \<Rightarrow> nat \<Rightarrow> 'a \<Rightarrow> 'a list" where
  "adjust_heap cmp a first holeIndex len val =
     (let (a1, secondChild) = sift_down cmp a first len holeIndex;
          (a2, hole) =
            (if even len \<and> 2 \<le> len \<and> secondChild = (len - 2) div 2
             then (a1[first + secondChild := a1 ! (first + (2 * (secondChild + 1) - 1))],
                   2 * (secondChild + 1) - 1)
             else (a1, secondChild))
      in push_heap cmp a2 first hole holeIndex val)"

fun make_heap_from ::
  "('a \<Rightarrow> 'a \<Rightarrow> bool) \<Rightarrow> 'a list \<Rightarrow> nat \<Rightarrow> nat \<Rightarrow> nat \<Rightarrow> 'a list" where
  "make_heap_from cmp a first len 0 = adjust_heap cmp a first 0 len (a ! first)"
| "make_heap_from cmp a first len (Suc parent) =
     make_heap_from cmp (adjust_heap cmp a first (Suc parent) len (a ! (first + Suc parent)))
       first len parent"

definition make_heap :: "('a \<Rightarrow> 'a \<Rightarrow> bool) \<Rightarrow> 'a list \<Rightarrow> nat \<Rightarrow> nat \<Rightarrow> 'a list" where
  "make_heap cmp a first last' =
     (if last' - first < 2 then a
      else make_heap_from cmp a first (last' - first) ((last' - first - 2) div 2))"

definition pop_heap :: "('a \<Rightarrow> 'a \<Rightarrow> bool) \<Rightarrow> 'a list \<Rightarrow> nat \<Rightarrow> nat \<Rightarrow> nat \<Rightarrow> 'a list" where
  "pop_heap cmp a first last' result =
     adjust_heap cmp (a[result := a ! first]) first 0 (last' - first) (a ! result)"

fun sort_heap :: "('a \<Rightarrow> 'a \<Rightarrow> bool) \<Rightarrow> 'a list \<Rightarrow> nat \<Rightarrow> nat \<Rightarrow> 'a list" where
  "sort_heap cmp a first 0 = a"
| "sort_heap cmp a first (Suc n) =
     (if 0 < n then sort_heap cmp (pop_heap cmp a first (first + n) (first + n)) first n else a)"

definition partial_sort :: "('a \<Rightarrow> 'a \<Rightarrow> bool) \<Rightarrow> 'a list \<Rightarrow> nat \<Rightarrow> nat \<Rightarrow> 'a list" where
  "partial_sort cmp a first last' = sort_heap cmp (make_heap cmp a first last') first (last' - first)"

fun introsort_loop ::
  "('a \<Rightarrow> 'a \<Rightarrow> bool) \<Rightarrow> 'a list \<Rightarrow> nat \<Rightarrow> nat \<Rightarrow> nat \<Rightarrow> 'a list option" where
  "introsort_loop cmp a first last' 0 =
     (if 16 < last' - first then Some (partial_sort cmp a first last') else Some a)"
| "introsort_loop cmp a first last' (Suc depth_limit) =
     (if 16 < last' - first
      then (case unguarded_partition_pivot cmp a first last' of
              None \<Rightarrow> None
            | Some (a', cut') \<Rightarrow>
                (case introsort_loop cmp a' cut' last' depth_limit of
                   None \<Rightarrow> None
                 | Some a'' \<Rightarrow> introsort_loop cmp a'' first cut' depth_limit))
      else Some a)"

definition std_sort :: "('a \<Rightarrow> 'a \<Rightarrow> bool) \<Rightarrow> 'a list \<Rightarrow> 'a list option" where
  "std_sort cmp a =
     (if a = [] then Some a
      else (case introsort_loop cmp a 0 (length a) (lg (length a) * 2) of
              None \<Rightarrow> None
            | Some a' \<Rightarrow> final_insertion_sort cmp a' 0 (length a')))"

definition by_cpu :: "ProcInfo \<Rightarrow> ProcInfo \<Rightarrow> bool" where
  \<comment> \<open>the comparison of line 177\<close>
  "by_cpu a b = dless (cpuPercent b) (cpuPercent a)"

definition by_pid :: "ProcInfo \<Rightarrow> ProcInfo \<Rightarrow> bool" where
  \<comment> \<open>the comparison of line 182\<close>
  "by_pid a b = (pid a < pid b)"

definition sorted_procs :: "bool \<Rightarrow> ProcInfo list \<Rightarrow> ProcInfo list option" where
  \<comment> \<open>lines 174 to 183\<close>
  "sorted_procs byCPU procs = (if byCPU then std_sort by_cpu procs else std_sort by_pid procs)"

text \<open>
  Following the specification's words for a stable sort: \<open>ys\<close> holds the elements of
  \<open>xs\<close>, no element of \<open>ys\<close> is before one that the comparison puts first, and the
  elements that the comparison does not tell apart are in \<open>ys\<close> in the order they have
  in \<open>xs\<close>.
\<close>

definition stable_sorted :: "('a \<Rightarrow> 'a \<Rightarrow> bool) \<Rightarrow> 'a list \<Rightarrow> 'a list \<Rightarrow> bool" where
  "stable_sorted cmp xs ys \<longleftrightarrow>
     mset ys = mset xs \<and> sorted_wrt (\<lambda>a b. \<not> cmp b a) ys
     \<and> (\<forall>k \<in> set xs. filter (\<lambda>x. \<not> cmp x k \<and> \<not> cmp k x) ys
                        = filter (\<lambda>x. \<not> cmp x k \<and> \<not> cmp k x) xs)"

subsection \<open>Commands\<close>

definition find_first_not_of :: "string \<Rightarrow> string \<Rightarrow> nat option" where
  \<comment> \<open>\<open>None\<close> is \<open>npos\<close>\<close>
  "find_first_not_of s cs =
     (if \<forall>c \<in> set s. c \<in> set cs then None
      else Some (length (takeWhile (\<lambda>c. c \<in> set cs) s)))"

definition find_last_not_of :: "string \<Rightarrow> string \<Rightarrow> nat option" where
  "find_last_not_of s cs =
     (if \<forall>c \<in> set s. c \<in> set cs then None
      else Some (length s - 1 - length (takeWhile (\<lambda>c. c \<in> set cs) (rev s))))"

definition substr :: "string \<Rightarrow> nat \<Rightarrow> nat \<Rightarrow> string" where
  \<comment> \<open>for \<open>pos \<le> length s\<close>, which holds at every call of the program\<close>
  "substr s pos n = take n (drop pos s)"

definition blanks :: string where
  \<comment> \<open>the literal \<open>" \t\r\n"\<close>\<close>
  "blanks = [CHR '' '', CHR 0x09, CHR 0x0D, CHR 0x0A]"

definition trim :: "string \<Rightarrow> string" where
  "trim s =
     (case find_first_not_of s blanks of
        None \<Rightarrow> []
      | Some a \<Rightarrow>
          (case find_last_not_of s blanks of
             None \<Rightarrow> []
           | Some b \<Rightarrow> substr s a (b - a + 1)))"

definition isdigit :: "char \<Rightarrow> bool" where
  "isdigit c \<longleftrightarrow> c \<in> set ''0123456789''"

definition isspace :: "char \<Rightarrow> bool" where
  "isspace c \<longleftrightarrow> c \<in> set [CHR '' '', CHR 0x09, CHR 0x0A, CHR 0x0B, CHR 0x0C, CHR 0x0D]"

datatype stoul_error = invalid_argument | out_of_range

definition digit_value :: "char \<Rightarrow> int" where
  "digit_value c = of_char c - 48"

definition decimal :: "string \<Rightarrow> int" where
  "decimal ds = foldl (\<lambda>v c. 10 * v + digit_value c) 0 ds"

definition stoul :: "string \<Rightarrow> stoul_error + DWORD" where
  \<comment> \<open>\<open>std::stoul\<close> with base 10, which is \<open>strtoul\<close> on the characters before the first
      NUL: leading white space, an optional sign, then the digits; an error when there is
      no digit or when the number does not fit \<open>unsigned long\<close>\<close>
  "stoul str =
     (let s = dropWhile isspace (takeWhile (\<lambda>c. c \<noteq> CHR 0x00) str);
          (neg, t) = (case s of
                        [] \<Rightarrow> (False, s)
                      | c # r \<Rightarrow> if c = CHR ''-'' then (True, r)
                                 else if c = CHR ''+'' then (False, r) else (False, s));
          ds = takeWhile isdigit t
      in if ds = [] then Inl invalid_argument
         else if 4294967295 < decimal ds then Inl out_of_range
         else Inr (if neg then - of_int (decimal ds) else of_int (decimal ds)))"

text \<open>
  \<open>OpenProcess(PROCESS_TERMINATE, FALSE, pid)\<close> answers the null handle, with the code
  that \<open>GetLastError\<close> then gives, or a handle, identified with what \<open>TerminateProcess\<close>
  answers on it: \<open>None\<close> for success, else the error code.
\<close>

datatype kill_handle = NullHandle DWORD | Handle "DWORD option"

datatype report =
    Terminated DWORD
  | FailedToTerminate DWORD DWORD
  | CannotOpen DWORD DWORD
  | InvalidPidInput

datatype flow = Continue | Break

definition pidStr_of :: "string \<Rightarrow> string" where
  \<comment> \<open>lines 205 to 219, for a command \<open>cmd\<close> that is not empty\<close>
  "pidStr_of cmd =
     (if hd cmd = CHR ''k'' \<or> hd cmd = CHR ''K'' then trim (substr cmd 1 (length cmd))
      else if list_all isdigit cmd then cmd else [])"

definition kill :: "(DWORD \<Rightarrow> kill_handle) \<Rightarrow> string \<Rightarrow> report" where
  \<comment> \<open>lines 223 to 243\<close>
  "kill OpenProcess_TERMINATE pidStr =
     (case stoul pidStr of
        Inl e \<Rightarrow> InvalidPidInput
      | Inr p \<Rightarrow>
          (case OpenProcess_TERMINATE p of
             Handle None \<Rightarrow> Terminated p
           | Handle (Some e) \<Rightarrow> FailedToTerminate p e
           | NullHandle e \<Rightarrow> CannotOpen p e))"

definition command ::
  "(DWORD \<Rightarrow> kill_handle) \<Rightarrow> string \<Rightarrow> monitor \<Rightarrow> flow \<times> monitor \<times> report list" where
  \<comment> \<open>lines 191 to 247: the line read, the state; the reports printed\<close>
  "command OpenProcess_TERMINATE line st =
     (let cmd = trim line
      in if cmd = [] then (Continue, st, [])
         else if cmd = ''q'' \<or> cmd = ''Q'' then (Break, st, [])
         else if cmd = ''s'' \<or> cmd = ''S'' then (Continue, st\<lparr>sortByCPU := \<not> sortByCPU st\<rparr>, [])
         else let pidStr = pidStr_of cmd
              in if pidStr \<noteq> [] then (Continue, st, [kill OpenProcess_TERMINATE pidStr])
                 else (Continue, st, []))"

section \<open>Scenarios\<close>

text \<open>
  Concrete hosts and process lists, on which the statements below are instantiated.
  \<open>host n\<close> has four processors and one process, whose kernel time is \<open>n\<close> and whose user
  time is 0. \<open>host3\<close> has two processors and three processes: \<open>OpenProcess\<close> fails for
  identifier 4, the counter of 100 is 400000, and \<open>GetProcessTimes\<close> fails for 200.
  \<open>host17\<close> has seventeen processes, and \<open>idle17\<close> is the list that a cycle returns on it.
\<close>

definition filetime :: "int \<Rightarrow> FILETIME" where
  "filetime n = \<lparr>dwLowDateTime = of_int n, dwHighDateTime = of_int (n div 4294967296)\<rparr>"

definition host :: "int \<Rightarrow> os" where
  "host n =
     \<lparr>CreateToolhelp32Snapshot = Entries \<lparr>th32ProcessID = 1234, szExeFile = ''a.exe''\<rparr> [],
      dwNumberOfProcessors = 4,
      OpenProcess = (\<lambda>i p. Some (Some (filetime n, filetime 0)))\<rparr>"

definition host3 :: os where
  "host3 =
     \<lparr>CreateToolhelp32Snapshot =
        Entries \<lparr>th32ProcessID = 4, szExeFile = ''System''\<rparr>
          [\<lparr>th32ProcessID = 100, szExeFile = ''a.exe''\<rparr>,
           \<lparr>th32ProcessID = 200, szExeFile = ''b.exe''\<rparr>],
      dwNumberOfProcessors = 2,
      OpenProcess = (\<lambda>i p. if p = 4 then None
                            else if p = 100 then Some (Some (filetime 300000, filetime 100000))
                            else Some None)\<rparr>"

definition no_times :: store where
  "no_times = (\<lambda>obj. Map.empty)"

definition old_times :: store where
  "old_times = (\<lambda>obj. Map.empty)(Obj_prevTimes := [100 \<mapsto> 900000, 200 \<mapsto> 5])"

definition host17 :: os where
  \<comment> \<open>seventeen processes with the identifiers 1 to 17, none of which can be opened\<close>
  "host17 =
     \<lparr>CreateToolhelp32Snapshot =
        Entries \<lparr>th32ProcessID = 1, szExeFile = ''idle''\<rparr>
          (map (\<lambda>n. \<lparr>th32ProcessID = of_int n, szExeFile = ''idle''\<rparr>) [2..17]),
      dwNumberOfProcessors = 4,
      OpenProcess = (\<lambda>i p. None)\<rparr>"

definition idle17 :: "ProcInfo list" where
  \<comment> \<open>seventeen processes with the identifiers 1 to 17, all at 0 percent\<close>
  "idle17 = map (\<lambda>n. \<lparr>pid = of_int n, name = ''idle'', cpuPercent = Fin 0\<rparr>) [1..17]"

definition procA :: ProcInfo where
  "procA = \<lparr>pid = 30, name = ''A'', cpuPercent = Fin 10\<rparr>"

definition procB :: ProcInfo where
  "procB = \<lparr>pid = 10, name = ''B'', cpuPercent = Fin 10\<rparr>"

definition procC :: ProcInfo where
  "procC = \<lparr>pid = 20, name = ''C'', cpuPercent = Fin 5\<rparr>"

section \<open>The elapsed time of a cycle\<close>

lemma deltaMs_forward: "prev \<le> cur \<Longrightarrow> deltaMs prev cur = cur - prev"
  by (simp add: deltaMs_def)

lemma deltaMs_wrapped:
  "cur < prev \<Longrightarrow> deltaMs prev cur = cur - prev - 1"
  by (simp add: deltaMs_def)

lemma unat_deltaMs:
  "unat (deltaMs prev cur) =
     (if prev \<le> cur then unat cur - unat prev
      else 4294967295 - unat prev + unat cur)"
proof (cases "prev \<le> cur")
  case True
  then show ?thesis by (simp add: deltaMs_def unat_sub)
next
  case False
  then have lt: "unat cur < unat prev" by (simp add: word_less_nat_alt not_le)
  have b: "unat prev < 4294967296" using unsigned_less [of prev, where ?'a = nat] by simp
  have "unat (0xFFFFFFFF - prev + cur) = (4294967295 - unat prev + unat cur)"
    using lt b by (simp add: unat_word_ariths unat_sub word_le_nat_alt)
  with False show ?thesis by (simp add: deltaMs_def)
qed

section \<open>Rounding to binary64\<close>

lemma pow2_powi: "pow2 k = 2 powi k"
  by (simp add: pow2_def power_int_def power_inverse [symmetric] inverse_eq_divide power_one_over)

lemma pow2_pos [simp]: "0 < pow2 k"
  by (simp add: pow2_powi)

lemma pow2_add: "pow2 (a + b) = pow2 a * pow2 b"
  by (simp add: pow2_powi power_int_add)

lemma pow2_mono: "a \<le> b \<Longrightarrow> pow2 a \<le> pow2 b"
  by (simp add: pow2_powi power_int_increasing)

lemma pow2_nat: "0 \<le> k \<Longrightarrow> pow2 k = of_int (2 ^ nat k)"
  by (simp add: pow2_def)

lemma pow2_div: "pow2 a / pow2 b = pow2 (a - b)"
  by (simp add: pow2_powi power_int_diff)

lemma pow2_split: "b \<le> a \<Longrightarrow> of_int (2 ^ nat (a - b)) * pow2 b = pow2 a"
proof -
  assume "b \<le> a"
  then have "of_int (2 ^ nat (a - b)) = pow2 (a - b)" by (simp add: pow2_nat)
  then have "of_int (2 ^ nat (a - b)) * pow2 b = pow2 (a - b) * pow2 b" by (rule arg_cong)
  also have "\<dots> = pow2 a" by (simp add: pow2_add [symmetric])
  finally show ?thesis .
qed

lemma bitlen_powi:
  assumes "0 < n"
  shows "(2::rat) powi (bitlen n - 1) \<le> of_int n" and "(of_int n :: rat) < 2 powi bitlen n"
proof -
  from assms have b: "1 \<le> bitlen n" using bitlen_eq_zero_iff [of n] bitlen_nonneg [of n] by linarith
  from bitlen_bounds [OF assms] have l: "2 ^ nat (bitlen n - 1) \<le> n" and u: "n < 2 ^ nat (bitlen n)"
    by simp_all
  have "(2::rat) powi (bitlen n - 1) = of_int (2 ^ nat (bitlen n - 1))"
    using b by (simp add: power_int_nonneg_exp)
  also have "\<dots> \<le> of_int n" using l by (simp only: of_int_le_iff)
  finally show "(2::rat) powi (bitlen n - 1) \<le> of_int n" .
  have "(of_int n :: rat) < of_int (2 ^ nat (bitlen n))" using u by (simp only: of_int_less_iff)
  also have "\<dots> = 2 powi bitlen n" using b by (simp add: power_int_nonneg_exp)
  finally show "(of_int n :: rat) < 2 powi bitlen n" .
qed

lemma ilog2_bounds:
  assumes "0 < x"
  shows "pow2 (ilog2 x) \<le> x" and "x < pow2 (ilog2 x + 1)"
proof -
  obtain n d where q: "quotient_of x = (n, d)" by (cases "quotient_of x")
  then have d: "0 < d" and x: "x = of_int n / of_int d"
    by (simp_all add: quotient_of_denom_pos quotient_of_div)
  from assms x d have n: "0 < n" by (simp add: zero_less_divide_iff)
  let ?k = "bitlen n - bitlen d"
  have dr: "(0::rat) < of_int d" using d by simp
  have up: "x < pow2 (?k + 1)"
  proof -
    have "x * of_int d = of_int n" using x dr by simp
    also have "\<dots> < 2 powi bitlen n" by (rule bitlen_powi(2) [OF n])
    also have "\<dots> = 2 powi (?k + 1) * 2 powi (bitlen d - 1)"
      by (simp add: power_int_add [symmetric])
    also have "\<dots> \<le> 2 powi (?k + 1) * of_int d"
      by (rule mult_left_mono [OF bitlen_powi(1) [OF d]]) simp
    finally show ?thesis using dr by (simp add: pow2_powi)
  qed
  have lo: "pow2 (?k - 1) \<le> x"
  proof -
    have "pow2 (?k - 1) * of_int d \<le> 2 powi (?k - 1) * 2 powi bitlen d"
      unfolding pow2_powi by (rule mult_left_mono [OF less_imp_le [OF bitlen_powi(2) [OF d]]]) simp
    also have "\<dots> = 2 powi (bitlen n - 1)" by (simp add: power_int_add [symmetric])
    also have "\<dots> \<le> of_int n" by (rule bitlen_powi(1) [OF n])
    also have "\<dots> = x * of_int d" using x dr by simp
    finally show ?thesis using dr by simp
  qed
  have e: "ilog2 x = (if pow2 ?k \<le> x then ?k else ?k - 1)"
    by (simp add: ilog2_def q Let_def)
  show "pow2 (ilog2 x) \<le> x" using lo by (simp add: e)
  show "x < pow2 (ilog2 x + 1)" using up by (auto simp: e not_le)
qed

lemma round_half_even_ge: "of_int n \<le> y \<Longrightarrow> n \<le> round_half_even y"
proof -
  assume "of_int n \<le> y"
  then have "n \<le> \<lfloor>y\<rfloor>" by (simp add: le_floor_iff)
  then show ?thesis by (simp add: round_half_even_def Let_def)
qed

lemma round_half_even_le: "y \<le> of_int n \<Longrightarrow> round_half_even y \<le> n"
proof (cases "y = of_int n")
  case True
  then show ?thesis by (simp add: round_half_even_def Let_def)
next
  case False
  assume "y \<le> of_int n"
  with False have "y < of_int n" by simp
  then have "\<lfloor>y\<rfloor> < n" by (simp add: floor_less_iff)
  then show ?thesis by (simp add: round_half_even_def Let_def)
qed

lemma round_binary64_between:
  assumes x: "pow2 i \<le> x" "x \<le> pow2 j" and ij: "- 1074 \<le> i" "j \<le> 1023"
  shows "\<exists>r. round_binary64 x = Fin r \<and> pow2 i \<le> r \<and> r \<le> pow2 j"
proof -
  have xpos: "0 < x" using x(1) pow2_pos [of i] by linarith
  let ?e = "ilog2 x"
  let ?q = "max (?e - 52) (- 1074)"
  let ?m = "round_half_even (x / pow2 ?q)"
  have ie: "i \<le> ?e"
  proof (rule ccontr)
    assume "\<not> i \<le> ?e"
    then have "pow2 (?e + 1) \<le> pow2 i" by (intro pow2_mono) simp
    with ilog2_bounds(2) [OF xpos] x(1) show False by simp
  qed
  have ej: "?e \<le> j"
  proof (rule ccontr)
    assume "\<not> ?e \<le> j"
    then have "pow2 (j + 1) \<le> pow2 ?e" by (intro pow2_mono) simp
    moreover have "pow2 j < pow2 (j + 1)" by (simp add: pow2_powi power_int_strict_increasing)
    ultimately show False using ilog2_bounds(1) [OF xpos] x(2) by simp
  qed
  have qe: "?q \<le> ?e" using ie ij(1) by simp
  have qj: "?q \<le> j" using qe ej by simp
  have lo: "2 ^ nat (?e - ?q) \<le> ?m"
  proof (rule round_half_even_ge)
    have "of_int (2 ^ nat (?e - ?q)) = pow2 (?e - ?q)" using qe by (simp add: pow2_nat)
    also have "\<dots> = pow2 ?e / pow2 ?q" by (simp add: pow2_div)
    also have "\<dots> \<le> x / pow2 ?q" by (intro divide_right_mono ilog2_bounds(1) [OF xpos] less_imp_le [OF pow2_pos])
    finally show "of_int (2 ^ nat (?e - ?q)) \<le> x / pow2 ?q" .
  qed
  have hi: "?m \<le> 2 ^ nat (j - ?q)"
  proof (rule round_half_even_le)
    have "x / pow2 ?q \<le> pow2 j / pow2 ?q" by (intro divide_right_mono x(2) less_imp_le [OF pow2_pos])
    also have "\<dots> = pow2 (j - ?q)" by (simp add: pow2_div)
    also have "\<dots> = of_int (2 ^ nat (j - ?q))" using qj by (simp add: pow2_nat)
    finally show "x / pow2 ?q \<le> of_int (2 ^ nat (j - ?q))" .
  qed
  have fin: "\<not> (971 < ?q \<or> (?q = 971 \<and> 2 ^ 53 \<le> ?m))"
  proof -
    have "?q \<le> 971" using ej ij(2) by simp
    moreover have "?m < 2 ^ 53" if "?q = 971"
    proof -
      from that ej ij(2) have "j - ?q = 52" by simp
      with hi have "?m \<le> 2 ^ 52" by simp
      then show ?thesis by simp
    qed
    ultimately show ?thesis by auto
  qed
  have r: "round_binary64 x = Fin (of_int ?m * pow2 ?q)"
    using xpos fin by (simp add: round_binary64_def Let_def)
  have "pow2 i \<le> pow2 ?e" by (rule pow2_mono [OF ie])
  also have "\<dots> = of_int (2 ^ nat (?e - ?q)) * pow2 ?q"
    by (rule pow2_split [OF qe, symmetric])
  also have "\<dots> \<le> of_int ?m * pow2 ?q"
    using lo by (intro mult_right_mono) (simp_all only: of_int_le_iff less_imp_le [OF pow2_pos])
  finally have 1: "pow2 i \<le> of_int ?m * pow2 ?q" .
  have "of_int ?m * pow2 ?q \<le> of_int (2 ^ nat (j - ?q)) * pow2 ?q"
    using hi by (intro mult_right_mono) (simp_all only: of_int_le_iff less_imp_le [OF pow2_pos])
  also have "\<dots> = pow2 j" by (rule pow2_split [OF qj])
  finally have 2: "of_int ?m * pow2 ?q \<le> pow2 j" .
  from r 1 2 show ?thesis by blast
qed


lemma round_binary64_upto:
  assumes x: "0 \<le> x" "x \<le> pow2 j" and j: "- 1074 \<le> j" "j \<le> 1023"
  shows "\<exists>r. round_binary64 x = Fin r \<and> 0 \<le> r \<and> r \<le> pow2 j"
proof (cases "x = 0")
  case True
  then show ?thesis by (simp add: round_binary64_def less_imp_le [OF pow2_pos])
next
  case False
  with x(1) have xpos: "0 < x" by simp
  let ?e = "ilog2 x"
  let ?q = "max (?e - 52) (- 1074)"
  let ?m = "round_half_even (x / pow2 ?q)"
  have ej: "?e \<le> j"
  proof (rule ccontr)
    assume "\<not> ?e \<le> j"
    then have "pow2 (j + 1) \<le> pow2 ?e" by (intro pow2_mono) simp
    moreover have "pow2 j < pow2 (j + 1)" by (simp add: pow2_powi power_int_strict_increasing)
    ultimately show False using ilog2_bounds(1) [OF xpos] x(2) by simp
  qed
  have qj: "?q \<le> j" using ej j(1) by simp
  have lo: "0 \<le> ?m"
    by (rule round_half_even_ge) (use xpos in \<open>simp add: less_imp_le\<close>)
  have hi: "?m \<le> 2 ^ nat (j - ?q)"
  proof (rule round_half_even_le)
    have "x / pow2 ?q \<le> pow2 j / pow2 ?q"
      by (intro divide_right_mono x(2) less_imp_le [OF pow2_pos])
    also have "\<dots> = pow2 (j - ?q)" by (simp add: pow2_div)
    also have "\<dots> = of_int (2 ^ nat (j - ?q))" using qj by (simp add: pow2_nat)
    finally show "x / pow2 ?q \<le> of_int (2 ^ nat (j - ?q))" .
  qed
  have fin: "\<not> (971 < ?q \<or> (?q = 971 \<and> 2 ^ 53 \<le> ?m))"
  proof -
    have "?q \<le> 971" using ej j by simp
    moreover have "?m < 2 ^ 53" if "?q = 971"
    proof -
      from that ej j(2) have "j - ?q = 52" by simp
      with hi have "?m \<le> 2 ^ 52" by simp
      then show ?thesis by simp
    qed
    ultimately show ?thesis by auto
  qed
  have r: "round_binary64 x = Fin (of_int ?m * pow2 ?q)"
    using xpos fin by (simp add: round_binary64_def Let_def)
  have 1: "0 \<le> of_int ?m * pow2 ?q"
    using lo by (intro mult_nonneg_nonneg) (simp_all only: of_int_0_le_iff less_imp_le [OF pow2_pos])
  have "of_int ?m * pow2 ?q \<le> of_int (2 ^ nat (j - ?q)) * pow2 ?q"
    using hi by (intro mult_right_mono) (simp_all only: of_int_le_iff less_imp_le [OF pow2_pos])
  also have "\<dots> = pow2 j" by (rule pow2_split [OF qj])
  finally have 2: "of_int ?m * pow2 ?q \<le> pow2 j" .
  from r 1 2 show ?thesis by blast
qed

lemma round_binary64_0 [simp]: "round_binary64 0 = Fin 0"
  by (simp add: round_binary64_def)

lemma to_double_0 [simp]: "to_double 0 = Fin 0"
  by (simp add: to_double_def)

lemma to_double_DWORD:
  fixes w :: DWORD
  assumes "1 \<le> w"
  shows "\<exists>r. to_double w = Fin r \<and> 1 \<le> r \<and> r \<le> 4294967296"
proof -
  from assms have "1 \<le> uint w" by (simp add: word_le_def)
  then have "(of_int 1 :: rat) \<le> of_int (uint w)" by (simp only: of_int_le_iff)
  then have lo: "pow2 0 \<le> of_int (uint w)" by (simp add: pow2_def)
  have "uint w < 4294967296" using uint_lt2p [of w] by simp
  then have "(of_int (uint w) :: rat) < of_int 4294967296" by (simp only: of_int_less_iff)
  then have hi: "(of_int (uint w) :: rat) \<le> pow2 32" by (simp add: pow2_def)
  from round_binary64_between [OF lo hi] show ?thesis
    by (simp add: to_double_def pow2_def)
qed

lemma to_double_ull:
  fixes w :: ull
  shows "\<exists>r. to_double w = Fin r \<and> 0 \<le> r \<and> r \<le> 18446744073709551616"
proof -
  have "uint w < 18446744073709551616" using uint_lt2p [of w] by simp
  then have "(of_int (uint w) :: rat) < of_int 18446744073709551616" by (simp only: of_int_less_iff)
  then have hi: "(of_int (uint w) :: rat) \<le> pow2 64" by (simp add: pow2_def)
  have "0 \<le> uint w" by simp
  then have lo: "(0::rat) \<le> of_int (uint w)" by (simp only: of_int_0_le_iff)
  from round_binary64_upto [OF lo hi] show ?thesis
    by (simp add: to_double_def pow2_def)
qed

lemma usage_finite:
  assumes d: "0 < dMs" and c: "1 \<le> numCores"
  shows "\<exists>r. usage t100ns prev100ns dMs numCores = Fin r \<and> 0 \<le> r"
proof -
  let ?dp = "if t100ns > prev100ns then t100ns - prev100ns else 0"
  from d have "1 \<le> dMs" by (simp add: word_less_nat_alt word_le_nat_alt)
  from to_double_DWORD [OF this] obtain a where
    a: "to_double dMs = Fin a" "1 \<le> a" "a \<le> 4294967296" by blast
  have "pow2 0 \<le> a * 10000" using a(2) by (simp add: pow2_def)
  moreover have "a * 10000 \<le> pow2 46" using a(3) by (simp add: pow2_def)
  ultimately obtain b where b: "round_binary64 (a * 10000) = Fin b" "pow2 0 \<le> b" "b \<le> pow2 46"
    using round_binary64_between [of 0 "a * 10000" 46] by auto
  from to_double_DWORD [OF c] obtain cc where
    cc: "to_double numCores = Fin cc" "1 \<le> cc" "cc \<le> 4294967296" by blast
  have b1: "1 \<le> b" and b2: "b \<le> 70368744177664" using b by (simp_all add: pow2_def)
  have "1 * 1 \<le> b * cc" using b1 cc(2) by (intro mult_mono) simp_all
  then have "pow2 0 \<le> b * cc" by (simp add: pow2_def)
  moreover have "b * cc \<le> 70368744177664 * 4294967296"
    using b1 b2 cc by (intro mult_mono) simp_all
  then have "b * cc \<le> pow2 78" by (simp add: pow2_def)
  ultimately obtain dn where dn: "round_binary64 (b * cc) = Fin dn" "pow2 0 \<le> dn"
    using round_binary64_between [of 0 "b * cc" 78] by auto
  then have dn1: "1 \<le> dn" by (simp add: pow2_def)
  from to_double_ull [of ?dp] obtain dd where
    dd: "to_double ?dp = Fin dd" "0 \<le> dd" "dd \<le> 18446744073709551616" by blast
  have "dd / dn \<le> dd" using dn1 dd(2) by (simp add: divide_le_eq mult_le_cancel_left1)
  then have "dd / dn \<le> pow2 64" using dd(3) by (simp add: pow2_def)
  moreover have "0 \<le> dd / dn" using dd(2) dn1 by simp
  ultimately obtain qq where qq: "round_binary64 (dd / dn) = Fin qq" "0 \<le> qq" "qq \<le> pow2 64"
    using round_binary64_upto [of "dd / dn" 64] by auto
  have "qq * 100 \<le> 18446744073709551616 * 128" using qq(2,3) by (simp add: pow2_def)
  then have "qq * 100 \<le> pow2 71" by (simp add: pow2_def)
  moreover have "0 \<le> qq * 100" using qq(2) by simp
  ultimately obtain uu where uu: "round_binary64 (qq * 100) = Fin uu" "0 \<le> uu"
    using round_binary64_upto [of "qq * 100" 71] by auto
  have dn0: "dn \<noteq> 0" using dn1 by simp
  have "usage t100ns prev100ns dMs numCores = Fin uu"
    using a(1) b(1) cc(1) dn(1) dn0 dd(1) qq(1) uu
    by (simp add: usage_def Let_def del: round_binary64_0)
  with uu(2) show ?thesis by blast
qed

lemma usage_no_advance:
  assumes d: "0 < dMs" and c: "1 \<le> numCores" and t: "\<not> prev100ns < t100ns"
  shows "usage t100ns prev100ns dMs numCores = Fin 0"
proof -
  from d have "1 \<le> dMs" by (simp add: word_less_nat_alt word_le_nat_alt)
  from to_double_DWORD [OF this] obtain a where
    a: "to_double dMs = Fin a" "1 \<le> a" "a \<le> 4294967296" by blast
  have "pow2 0 \<le> a * 10000" using a(2) by (simp add: pow2_def)
  moreover have "a * 10000 \<le> pow2 46" using a(3) by (simp add: pow2_def)
  ultimately obtain b where b: "round_binary64 (a * 10000) = Fin b" "pow2 0 \<le> b" "b \<le> pow2 46"
    using round_binary64_between [of 0 "a * 10000" 46] by auto
  from to_double_DWORD [OF c] obtain cc where
    cc: "to_double numCores = Fin cc" "1 \<le> cc" "cc \<le> 4294967296" by blast
  have b1: "1 \<le> b" and b2: "b \<le> 70368744177664" using b by (simp_all add: pow2_def)
  have "1 * 1 \<le> b * cc" using b1 cc(2) by (intro mult_mono) simp_all
  then have "pow2 0 \<le> b * cc" by (simp add: pow2_def)
  moreover have "b * cc \<le> 70368744177664 * 4294967296"
    using b1 b2 cc by (intro mult_mono) simp_all
  then have "b * cc \<le> pow2 78" by (simp add: pow2_def)
  ultimately obtain dn where dn: "round_binary64 (b * cc) = Fin dn" "pow2 0 \<le> dn"
    using round_binary64_between [of 0 "b * cc" 78] by auto
  then have dn0: "dn \<noteq> 0" by (simp add: pow2_def)
  show ?thesis
    using a(1) b(1) cc(1) dn(1) dn0 t
    by (simp add: usage_def Let_def)
qed


section \<open>The reading loop\<close>

lemma pid_sampled [simp]: "pid (sampled env prev d c i p) = pid p"
  by (simp add: sampled_def split: option.splits)

lemma name_sampled [simp]: "name (sampled env prev d c i p) = name p"
  by (simp add: sampled_def split: option.splits)

lemma visit_step:
  assumes "P \<noteq> Q" and "i < length list"
  shows "visit env P Q d c i (list, \<sigma>) =
           (list[i := sampled env (\<sigma> P) d c i (list ! i)],
            \<sigma>(Q := (case read_counter env i (pid (list ! i)) of
                       None \<Rightarrow> \<sigma> Q | Some t \<Rightarrow> (\<sigma> Q)(pid (list ! i) \<mapsto> t))))"
  using assms
  by (auto simp: visit_def sampled_def read_counter_def Let_def split: option.splits)

lemma loop_closed_form:
  assumes "P \<noteq> Q" and "k \<le> length list"
  shows "fold (visit env P Q d c) [0..<k] (list, \<sigma>) =
           (map (\<lambda>j. if j < k then sampled env (\<sigma> P) d c j (list ! j) else list ! j) [0..<length list],
            \<sigma>(Q := recorded env (map pid list) k (\<sigma> Q)))"
  using assms(2)
proof (induction k)
  case 0
  show ?case by (simp add: map_nth)
next
  case (Suc k)
  let ?lk = "map (\<lambda>j. if j < k then sampled env (\<sigma> P) d c j (list ! j) else list ! j) [0..<length list]"
  let ?sk = "\<sigma>(Q := recorded env (map pid list) k (\<sigma> Q))"
  from Suc.prems have k: "k < length list" by simp
  have IH: "fold (visit env P Q d c) [0..<k] (list, \<sigma>) = (?lk, ?sk)"
    by (rule Suc.IH) (use k in simp)
  have lk: "?lk ! k = list ! k" using k by simp
  have "fold (visit env P Q d c) [0..<Suc k] (list, \<sigma>) = visit env P Q d c k (?lk, ?sk)"
    by (simp add: IH)
  also have "\<dots> = (?lk[k := sampled env (?sk P) d c k (?lk ! k)],
            ?sk(Q := (case read_counter env k (pid (?lk ! k)) of
                       None \<Rightarrow> ?sk Q | Some t \<Rightarrow> (?sk Q)(pid (?lk ! k) \<mapsto> t))))"
    using k by (subst visit_step [OF assms(1)]) simp_all
  also have "?lk[k := sampled env (?sk P) d c k (?lk ! k)] =
       map (\<lambda>j. if j < Suc k then sampled env (\<sigma> P) d c j (list ! j) else list ! j) [0..<length list]"
    using k assms(1) by (auto intro!: nth_equalityI simp: nth_list_update less_Suc_eq)
  also have "?sk(Q := (case read_counter env k (pid (?lk ! k)) of
                       None \<Rightarrow> ?sk Q | Some t \<Rightarrow> (?sk Q)(pid (?lk ! k) \<mapsto> t))) =
       \<sigma>(Q := recorded env (map pid list) (Suc k) (\<sigma> Q))"
    using k by (auto simp: lk split: option.splits)
  finally show ?case .
qed


lemma visit_effect:
  assumes "i < length l"
  shows "\<exists>l'. visit env P Q d c i (l, s) =
            (l', s(Q := (case read_counter env i (pid (l ! i)) of
                           None \<Rightarrow> s Q | Some t \<Rightarrow> (s Q)(pid (l ! i) \<mapsto> t))))
          \<and> (l' = l \<or> (0 < d \<and> read_counter env i (pid (l ! i)) \<noteq> None
                        \<and> (\<exists>t t0. l' = l[i := (l ! i)\<lparr>cpuPercent := usage t t0 d c\<rparr>])))"
  by (auto simp: visit_def read_counter_def Let_def split: option.splits)

lemma fold_visit_invariant:
  assumes init: "Inv list \<sigma>"
    and step: "\<And>i l s l' s'. i < length list \<Longrightarrow> length l = length list \<Longrightarrow> Inv l s
                 \<Longrightarrow> visit env P Q d c i (l, s) = (l', s') \<Longrightarrow> length l' = length list \<and> Inv l' s'"
    and k: "k \<le> length list"
  shows "\<exists>l' s'. fold (visit env P Q d c) [0..<k] (list, \<sigma>) = (l', s')
                  \<and> length l' = length list \<and> Inv l' s'"
  using k
proof (induction k)
  case 0
  show ?case using init by simp
next
  case (Suc k)
  then obtain l s where f: "fold (visit env P Q d c) [0..<k] (list, \<sigma>) = (l, s)"
    and l: "length l = length list" and inv: "Inv l s" by auto
  obtain l' s' where v: "visit env P Q d c k (l, s) = (l', s')" by (cases "visit env P Q d c k (l, s)")
  from Suc.prems have "k < length list" by simp
  from step [OF this l inv v] f v show ?case by simp
qed


lemma map_eq_nth: "map f xs = map f ys \<Longrightarrow> i < length xs \<Longrightarrow> f (xs ! i) = f (ys ! i)"
  by (metis length_map nth_map)

lemma loop_frame:
  assumes "k \<le> length list"
  shows "\<exists>l'. fold (visit env P Q d c) [0..<k] (list, \<sigma>) =
                 (l', \<sigma>(Q := recorded env (map pid list) k (\<sigma> Q)))
              \<and> length l' = length list \<and> map pid l' = map pid list \<and> map name l' = map name list"
  using assms
proof (induction k)
  case 0
  show ?case by simp
next
  case (Suc k)
  let ?s = "\<sigma>(Q := recorded env (map pid list) k (\<sigma> Q))"
  from Suc.IH [OF Suc_leD [OF Suc.prems]]
  obtain l where f: "fold (visit env P Q d c) [0..<k] (list, \<sigma>) = (l, ?s)"
    and l: "length l = length list" and p: "map pid l = map pid list"
    and n: "map name l = map name list" by blast
  from Suc.prems l have k: "k < length l" by simp
  have pk: "pid (l ! k) = pid (list ! k)" by (rule map_eq_nth [OF p k])
  have nk: "name (l ! k) = name (list ! k)" by (rule map_eq_nth [OF n k])
  from visit_effect [OF k, of env P Q d c ?s] obtain l' where
    v: "visit env P Q d c k (l, ?s) =
          (l', ?s(Q := (case read_counter env k (pid (l ! k)) of
                          None \<Rightarrow> ?s Q | Some t \<Rightarrow> (?s Q)(pid (l ! k) \<mapsto> t))))"
    and l': "l' = l \<or> (\<exists>t t0. l' = l[k := (l ! k)\<lparr>cpuPercent := usage t t0 d c\<rparr>])"
    by blast
  have st: "?s(Q := (case read_counter env k (pid (l ! k)) of
                          None \<Rightarrow> ?s Q | Some t \<Rightarrow> (?s Q)(pid (l ! k) \<mapsto> t)))
            = \<sigma>(Q := recorded env (map pid list) (Suc k) (\<sigma> Q))"
    using k l by (simp add: pk split: option.splits)
  have fr: "length l' = length list \<and> map pid l' = map pid list \<and> map name l' = map name list"
    using l' l p n k pk nk by (auto simp: map_update list_update_same_conv)
  have "fold (visit env P Q d c) [0..<Suc k] (list, \<sigma>) = visit env P Q d c k (l, ?s)"
    by (simp add: f)
  also note v
  also note st
  finally show ?case using fr by blast
qed

lemma loop_nonneg:
  assumes c: "1 \<le> c" and init: "\<forall>p \<in> set list. \<exists>r. cpuPercent p = Fin r \<and> 0 \<le> r"
  shows "\<forall>p \<in> set (fst (fold (visit env P Q d c) [0..<length list] (list, \<sigma>))).
           \<exists>r. cpuPercent p = Fin r \<and> 0 \<le> r"
proof -
  let ?Inv = "\<lambda>(l :: ProcInfo list) (s :: store). \<forall>p \<in> set l. \<exists>r. cpuPercent p = Fin r \<and> 0 \<le> r"
  have "\<exists>l' s'. fold (visit env P Q d c) [0..<length list] (list, \<sigma>) = (l', s')
                  \<and> length l' = length list \<and> ?Inv l' s'"
  proof (rule fold_visit_invariant [where Inv = ?Inv])
    show "?Inv list \<sigma>" by (rule init)
  next
    fix i l s l' s'
    assume i: "i < length list" and l: "length l = length list" and inv: "?Inv l s"
      and v: "visit env P Q d c i (l, s) = (l', s')"
    from i l have il: "i < length l" by simp
    from visit_effect [OF il, of env P Q d c s] v
    have "l' = l \<or> (0 < d \<and> (\<exists>t t0. l' = l[i := (l ! i)\<lparr>cpuPercent := usage t t0 d c\<rparr>]))"
      by auto
    then show "length l' = length list \<and> ?Inv l' s'"
    proof
      assume "l' = l"
      with l inv show ?thesis by simp
    next
      assume "0 < d \<and> (\<exists>t t0. l' = l[i := (l ! i)\<lparr>cpuPercent := usage t t0 d c\<rparr>])"
      then obtain t t0 where d: "0 < d" and l': "l' = l[i := (l ! i)\<lparr>cpuPercent := usage t t0 d c\<rparr>]"
        by blast
      from usage_finite [OF d c, of t t0] obtain r where
        r: "usage t t0 d c = Fin r" "0 \<le> r" by blast
      have "?Inv l' s'"
      proof
        fix p assume "p \<in> set l'"
        then have "p = (l ! i)\<lparr>cpuPercent := usage t t0 d c\<rparr> \<or> p \<in> set l"
          unfolding l' using set_update_subset_insert [of l i] by auto
        then show "\<exists>r. cpuPercent p = Fin r \<and> 0 \<le> r" using r inv by auto
      qed
      with l l' show ?thesis by simp
    qed
  qed simp
  then show ?thesis by auto
qed

lemma loop_zero_elapsed:
  "fst (fold (visit env P Q 0 c) [0..<length list] (list, \<sigma>)) = list"
proof -
  let ?Inv = "\<lambda>(l :: ProcInfo list) (s :: store). l = list"
  have "\<exists>l' s'. fold (visit env P Q 0 c) [0..<length list] (list, \<sigma>) = (l', s')
                  \<and> length l' = length list \<and> ?Inv l' s'"
  proof (rule fold_visit_invariant [where Inv = ?Inv])
    fix i l s l' s'
    assume i: "i < length list" and l: "length l = length list" and inv: "l = list"
      and v: "visit env P Q 0 c i (l, s) = (l', s')"
    from i l have il: "i < length l" by simp
    from visit_effect [OF il, of env P Q 0 c s] v have "l' = l" by auto
    with inv show "length l' = length list \<and> l' = list" by simp
  qed simp_all
  then show ?thesis by auto
qed

lemma loop_failed_read:
  assumes i: "i < length list" and r: "read_counter env i (pid (list ! i)) = None"
  shows "fst (fold (visit env P Q d c) [0..<length list] (list, \<sigma>)) ! i = list ! i"
proof -
  let ?Inv = "\<lambda>(l :: ProcInfo list) (s :: store). l ! i = list ! i"
  have "\<exists>l' s'. fold (visit env P Q d c) [0..<length list] (list, \<sigma>) = (l', s')
                  \<and> length l' = length list \<and> ?Inv l' s'"
  proof (rule fold_visit_invariant [where Inv = ?Inv])
    fix j l s l' s'
    assume j: "j < length list" and l: "length l = length list" and inv: "l ! i = list ! i"
      and v: "visit env P Q d c j (l, s) = (l', s')"
    from j l have jl: "j < length l" by simp
    from visit_effect [OF jl, of env P Q d c s] v
    have "l' = l \<or> (read_counter env j (pid (l ! j)) \<noteq> None
                     \<and> (\<exists>t t0. l' = l[j := (l ! j)\<lparr>cpuPercent := usage t t0 d c\<rparr>]))"
      by auto
    then show "length l' = length list \<and> l' ! i = list ! i"
    proof
      assume "l' = l"
      with l inv show ?thesis by simp
    next
      assume a: "read_counter env j (pid (l ! j)) \<noteq> None
                     \<and> (\<exists>t t0. l' = l[j := (l ! j)\<lparr>cpuPercent := usage t t0 d c\<rparr>])"
      have "j \<noteq> i" using a r inv by auto
      with a l inv show ?thesis by auto
    qed
  qed simp_all
  then show ?thesis by auto
qed


lemma dom_recorded:
  "k \<le> length ps \<Longrightarrow> dom (recorded env ps k m) \<subseteq> dom m \<union> set ps"
proof (induction k)
  case 0
  show ?case by simp
next
  case (Suc k)
  then have "dom (recorded env ps k m) \<subseteq> dom m \<union> set ps" and "ps ! k \<in> set ps" by simp_all
  then show ?case by (auto split: option.splits)
qed

lemma recorded_unread:
  "(\<And>j. j < k \<Longrightarrow> ps ! j = p \<Longrightarrow> read_counter env j p = None) \<Longrightarrow> recorded env ps k m p = m p"
proof (induction k)
  case 0
  show ?case by simp
next
  case (Suc k)
  have "recorded env ps k m p = m p" by (rule Suc.IH) (simp add: Suc.prems)
  moreover have "ps ! k = p \<Longrightarrow> read_counter env k p = None" by (rule Suc.prems) simp_all
  ultimately show ?case by (auto split: option.splits)
qed

lemma recorded_read:
  assumes "i < k" and "read_counter env i (ps ! i) = Some t"
  shows "\<exists>j t'. i \<le> j \<and> j < k \<and> ps ! j = ps ! i \<and> read_counter env j (ps ! i) = Some t'
                \<and> recorded env ps k m (ps ! i) = Some t'"
  using assms(1)
proof (induction k)
  case 0
  then show ?case by simp
next
  case (Suc k)
  show ?case
  proof (cases "ps ! k = ps ! i \<and> read_counter env k (ps ! i) \<noteq> None")
    case True
    then obtain t' where "read_counter env k (ps ! i) = Some t'" by auto
    with True Suc.prems show ?thesis by (intro exI [of _ k] exI [of _ t']) auto
  next
    case False
    have ik: "i < k"
    proof (rule ccontr)
      assume "\<not> i < k"
      with Suc.prems have "i = k" by simp
      with False assms(2) show False by simp
    qed
    from Suc.IH [OF ik] obtain j t' where
      j: "i \<le> j" "j < k" "ps ! j = ps ! i" "read_counter env j (ps ! i) = Some t'"
         "recorded env ps k m (ps ! i) = Some t'" by blast
    have "recorded env ps (Suc k) m (ps ! i) = Some t'"
      using False j(5) by (auto split: option.splits)
    with j show ?thesis by (intro exI [of _ j] exI [of _ t']) auto
  qed
qed

lemma recorded_distinct:
  assumes "distinct ps" and "i < k" and "k \<le> length ps" and "read_counter env i (ps ! i) = Some t"
  shows "recorded env ps k m (ps ! i) = Some t"
proof -
  from recorded_read [OF assms(2,4), of m] obtain j t' where
    j: "j < k" "ps ! j = ps ! i" "read_counter env j (ps ! i) = Some t'"
       "recorded env ps k m (ps ! i) = Some t'" by blast
  from j(1,2) assms(1,2,3) have "j = i" by (simp add: nth_eq_iff_index_eq)
  with j(3,4) assms(4) show ?thesis by simp
qed

lemma pid_entry [simp]: "pid (entry pe) = th32ProcessID pe"
  by (simp add: entry_def)

lemma name_entry [simp]: "name (entry pe) = szExeFile pe"
  by (simp add: entry_def)

lemma cpuPercent_entry [simp]: "cpuPercent (entry pe) = Fin 0"
  by (simp add: entry_def)

lemma SnapshotProcesses_loop:
  "SnapshotProcesses env \<sigma> P pt ct Q =
     (if enumerated env = [] then ([], \<sigma>)
      else fold (visit env P Q (deltaMs pt ct)
                   (if dwNumberOfProcessors env < 1 then 1 else dwNumberOfProcessors env))
             [0..<length (enumerated env)] (map entry (enumerated env), \<sigma>))"
  by (simp add: SnapshotProcesses_def enumerated_def Let_def split: Toolhelp.splits)

lemma SnapshotProcesses_frame:
  "snd (SnapshotProcesses env \<sigma> P pt ct Q) =
     \<sigma>(Q := recorded env (map th32ProcessID (enumerated env)) (length (enumerated env)) (\<sigma> Q))"
  "length (fst (SnapshotProcesses env \<sigma> P pt ct Q)) = length (enumerated env)"
  "map pid (fst (SnapshotProcesses env \<sigma> P pt ct Q)) = map th32ProcessID (enumerated env)"
  "map name (fst (SnapshotProcesses env \<sigma> P pt ct Q)) = map szExeFile (enumerated env)"
proof -
  let ?c = "if dwNumberOfProcessors env < 1 then 1 else dwNumberOfProcessors env"
  let ?l = "map entry (enumerated env)"
  have "length (enumerated env) \<le> length ?l" by simp
  from loop_frame [OF this, of env P Q "deltaMs pt ct" ?c \<sigma>] obtain l' where
    f: "fold (visit env P Q (deltaMs pt ct) ?c) [0..<length (enumerated env)] (?l, \<sigma>) =
          (l', \<sigma>(Q := recorded env (map pid ?l) (length (enumerated env)) (\<sigma> Q)))"
    and l: "length l' = length ?l" "map pid l' = map pid ?l" "map name l' = map name ?l"
    by blast
  have p: "map pid ?l = map th32ProcessID (enumerated env)" by simp
  have n: "map name ?l = map szExeFile (enumerated env)" by simp
  have e: "SnapshotProcesses env \<sigma> P pt ct Q =
             (if enumerated env = [] then ([], \<sigma>)
              else (l', \<sigma>(Q := recorded env (map th32ProcessID (enumerated env))
                                  (length (enumerated env)) (\<sigma> Q))))"
    unfolding SnapshotProcesses_loop f p ..
  show "snd (SnapshotProcesses env \<sigma> P pt ct Q) =
     \<sigma>(Q := recorded env (map th32ProcessID (enumerated env)) (length (enumerated env)) (\<sigma> Q))"
    by (simp add: e)
  show "length (fst (SnapshotProcesses env \<sigma> P pt ct Q)) = length (enumerated env)"
    using l(1) by (simp add: e)
  show "map pid (fst (SnapshotProcesses env \<sigma> P pt ct Q)) = map th32ProcessID (enumerated env)"
    using l(2) p by (simp add: e)
  show "map name (fst (SnapshotProcesses env \<sigma> P pt ct Q)) = map szExeFile (enumerated env)"
    using l(3) n by (simp add: e)
qed

lemma SnapshotProcesses_nth:
  assumes "P \<noteq> Q" and "i < length (enumerated env)"
  shows "fst (SnapshotProcesses env \<sigma> P pt ct Q) ! i =
           sampled env (\<sigma> P) (deltaMs pt ct)
             (if dwNumberOfProcessors env < 1 then 1 else dwNumberOfProcessors env) i
             (entry (enumerated env ! i))"
proof -
  from assms(2) have ne: "enumerated env \<noteq> []" by auto
  have "length (enumerated env) \<le> length (map entry (enumerated env))" by simp
  from loop_closed_form [OF assms(1) this] assms(2) ne show ?thesis
    by (simp add: SnapshotProcesses_loop)
qed

lemma SnapshotProcesses_failed_read:
  assumes "i < length (enumerated env)"
    and "read_counter env i (th32ProcessID (enumerated env ! i)) = None"
  shows "fst (SnapshotProcesses env \<sigma> P pt ct Q) ! i = entry (enumerated env ! i)"
proof -
  from assms(1) have ne: "enumerated env \<noteq> []" by auto
  let ?l = "map entry (enumerated env)"
  have i: "i < length ?l" using assms(1) by simp
  have r: "read_counter env i (pid (?l ! i)) = None" using assms by simp
  from loop_failed_read [OF i r] assms(1) ne show ?thesis
    by (simp add: SnapshotProcesses_loop)
qed

lemma numCores_ge_1: "1 \<le> (if n < 1 then 1 else n :: DWORD)"
  by (simp add: word_le_nat_alt Suc_le_eq unat_gt_0)

lemma SnapshotProcesses_nonneg:
  assumes "p \<in> set (fst (SnapshotProcesses env \<sigma> P pt ct Q))"
  shows "\<exists>r. cpuPercent p = Fin r \<and> 0 \<le> r"
proof (cases "enumerated env = []")
  case True
  with assms show ?thesis by (simp add: SnapshotProcesses_loop)
next
  case False
  let ?c = "if dwNumberOfProcessors env < 1 then 1 else dwNumberOfProcessors env"
  let ?l = "map entry (enumerated env)"
  have c: "1 \<le> ?c" by (rule numCores_ge_1)
  have init: "\<forall>p \<in> set ?l. \<exists>r. cpuPercent p = Fin r \<and> 0 \<le> r" by auto
  from loop_nonneg [OF c init, of env P Q "deltaMs pt ct" \<sigma>] assms False show ?thesis
    by (simp add: SnapshotProcesses_loop)
qed

lemma SnapshotProcesses_zero_elapsed:
  assumes "deltaMs pt ct = 0"
  shows "fst (SnapshotProcesses env \<sigma> P pt ct Q) = map entry (enumerated env)"
  using loop_zero_elapsed [of env P Q _ "map entry (enumerated env)" \<sigma>] assms
  by (simp add: SnapshotProcesses_loop)


lemma sampled_no_advance:
  assumes "read_counter env i (pid p) = Some t" and "prev (pid p) = Some t0" and "\<not> t0 < t"
    and "1 \<le> c" and "cpuPercent p = Fin 0"
  shows "cpuPercent (sampled env prev d c i p) = Fin 0"
  using assms usage_no_advance [of d c t0 t]
  by (simp add: sampled_def)

lemma sampled_new:
  assumes "prev (pid p) = None"
  shows "sampled env prev d c i p = p"
  using assms by (simp add: sampled_def split: option.splits)

lemma host3_enumerated:
  "enumerated host3 = [\<lparr>th32ProcessID = 4, szExeFile = ''System''\<rparr>,
      \<lparr>th32ProcessID = 100, szExeFile = ''a.exe''\<rparr>, \<lparr>th32ProcessID = 200, szExeFile = ''b.exe''\<rparr>]"
  by (simp add: enumerated_def host3_def)

lemma host3_read:
  "read_counter host3 i 4 = None" "read_counter host3 i 100 = Some 400000"
  "read_counter host3 i 200 = None"
  by (simp_all add: read_counter_def host3_def GetProcTime100ns_def FileTimeToULL_def filetime_def)

lemma host3_distinct: "distinct (map th32ProcessID (enumerated host3))"
  by (simp add: host3_enumerated)

lemma old_times_simps:
  "old_times Obj_prevTimes 100 = Some 900000" "old_times Obj_prevTimes 200 = Some 5"
  "old_times Obj_prevTimes 4 = None" "old_times Obj_curTimes = Map.empty"
  by (simp_all add: old_times_def)

lemma sample_unfold:
  "sample env tick st =
     (fst (SnapshotProcesses env ((vars st)(Obj_curTimes := Map.empty)) Obj_prevTimes (prevTick st)
             tick Obj_curTimes),
      roll tick (st\<lparr>vars := snd (SnapshotProcesses env ((vars st)(Obj_curTimes := Map.empty))
                                 Obj_prevTimes (prevTick st) tick Obj_curTimes)\<rparr>))"
  by (simp add: sample_def estimate_def Let_def split_def)

lemma estimate_unfold:
  "estimate env tick st =
     (fst (SnapshotProcesses env ((vars st)(Obj_curTimes := Map.empty)) Obj_prevTimes (prevTick st)
             tick Obj_curTimes),
      st\<lparr>vars := snd (SnapshotProcesses env ((vars st)(Obj_curTimes := Map.empty))
                                 Obj_prevTimes (prevTick st) tick Obj_curTimes)\<rparr>)"
  by (simp add: estimate_def Let_def split_def)

lemma initial_snapshot_unfold:
  "initial_snapshot env tick =
     \<lparr>vars = snd (SnapshotProcesses env (\<lambda>obj. Map.empty) Obj_tmp tick tick Obj_prevTimes),
      prevTick = tick, sortByCPU = True\<rparr>"
  by (simp add: initial_snapshot_def Let_def split_def)

lemma dom_written:
  "dom (snd (SnapshotProcesses env \<sigma> P t0 t1 Q) Q)
     \<subseteq> dom (\<sigma> Q) \<union> set (map th32ProcessID (enumerated env))"
  using dom_recorded [of "length (enumerated env)" "map th32ProcessID (enumerated env)" env "\<sigma> Q"]
  by (simp add: SnapshotProcesses_frame(1))

section \<open>Sorting and commands\<close>

lemma sorted_split:
  "sorted (map f pre) \<Longrightarrow> pre = filter (\<lambda>e. f e \<le> c) pre @ filter (\<lambda>e. c < f e) pre"
proof (induction pre)
  case Nil
  show ?case by simp
next
  case (Cons e es)
  then have es: "sorted (map f es)" and le: "\<forall>x \<in> set es. f e \<le> f x" by auto
  show ?case
  proof (cases "f e \<le> c")
    case True
    with Cons.IH [OF es] show ?thesis by simp
  next
    case False
    with le have "\<forall>x \<in> set es. \<not> f x \<le> c" by auto
    then have "filter (\<lambda>e. f e \<le> c) es = []" "filter (\<lambda>e. c < f e) es = es"
      by (auto simp: filter_empty_conv filter_id_conv)
    with False show ?thesis by simp
  qed
qed

lemma shift_insert_spec:
  assumes "\<forall>e \<in> set hi. cmp v e" and "\<not> cmp v fl"
  shows "shift_insert cmp v (fs @ fl # hi @ x # rest) (Suc (length fs + length hi))
           = Some (fs @ fl # v # hi @ rest)"
  using assms(1)
proof (induction hi arbitrary: x rest rule: rev_induct)
  case Nil
  have "(fs @ fl # x # rest) ! length fs = fl" by simp
  moreover have "(fs @ fl # x # rest)[Suc (length fs) := v] = fs @ fl # v # rest"
    by (simp add: list_update_append)
  ultimately show ?case using assms(2) by simp
next
  case (snoc b bs)
  let ?a = "fs @ fl # (bs @ [b]) @ x # rest"
  let ?n = "Suc (length fs + length bs)"
  have a: "?a = (fs @ fl # bs) @ b # x # rest" by simp
  have n: "?n = length (fs @ fl # bs)" by simp
  have nb: "?a ! ?n = b" unfolding a n by (rule nth_append_length)
  have up: "?a[Suc ?n := b] = fs @ fl # bs @ b # b # rest"
    unfolding a n by (simp add: list_update_append)
  from snoc.prems have cb: "cmp v b" and bs: "\<forall>e \<in> set bs. cmp v e" by simp_all
  have "shift_insert cmp v ?a (Suc (length fs + length (bs @ [b])))
          = shift_insert cmp v ?a (Suc ?n)" by simp
  also have "\<dots> = shift_insert cmp v (?a[Suc ?n := ?a ! ?n]) ?n"
    using cb nb by (simp del: append_assoc append.simps)
  also have "\<dots> = shift_insert cmp v (fs @ fl # bs @ b # b # rest) ?n"
    by (simp only: nb up)
  also have "\<dots> = Some (fs @ fl # v # bs @ b # rest)"
    by (rule snoc.IH [OF bs])
  finally show ?case by simp
qed


lemma insert_step:
  fixes f :: "'a \<Rightarrow> 'k::linorder"
  assumes key: "\<And>a b. a \<in> S \<Longrightarrow> b \<in> S \<Longrightarrow> cmp a b \<longleftrightarrow> f a < f b"
    and S: "set pre \<subseteq> S" "v \<in> S"
    and pre: "pre \<noteq> []" "sorted (map f pre)"
    and a: "a = pre @ v # rest" and i: "i = length pre"
  shows "(if cmp (a ! i) (a ! 0)
          then Some (take 0 a @ a ! i # take (i - 0) (drop 0 a) @ drop (Suc i) a)
          else unguarded_linear_insert cmp a i)
         = Some (filter (\<lambda>e. f e \<le> f v) pre @ v # filter (\<lambda>e. f v < f e) pre @ rest)"
proof -
  let ?lo = "filter (\<lambda>e. f e \<le> f v) pre"
  let ?hi = "filter (\<lambda>e. f v < f e) pre"
  obtain p ps where p: "pre = p # ps" using pre(1) by (cases pre) auto
  have ai: "a ! i = v" unfolding a i by (rule nth_append_length)
  have a0: "a ! 0 = p" by (simp add: a p)
  have pS: "p \<in> S" using S(1) p by simp
  have split: "pre = ?lo @ ?hi" by (rule sorted_split [OF pre(2)])
  have le: "\<forall>x \<in> set pre. f p \<le> f x" using pre(2) p by auto
  show ?thesis
  proof (cases "cmp v p")
    case True
    then have "f v < f p" using key [OF S(2) pS] by simp
    with le have "\<forall>x \<in> set pre. \<not> f x \<le> f v" by auto
    then have "?lo = []" "?hi = pre" by (auto simp: filter_empty_conv filter_id_conv)
    moreover have "take i a = pre" "drop (Suc i) a = rest" by (simp_all add: a i)
    ultimately show ?thesis using True ai a0 by simp
  next
    case False
    then have "f p \<le> f v" using key [OF S(2) pS] by simp
    then have "p \<in> set ?lo" by (simp add: p)
    then have "?lo \<noteq> []" by (metis empty_iff empty_set)
    then obtain fs fl where lo: "?lo = fs @ [fl]" by (metis rev_exhaust)
    then have "fl \<in> set ?lo" by simp
    then have fl: "fl \<in> S" "f fl \<le> f v" using S(1) by auto
    have nfl: "\<not> cmp v fl" using key [OF S(2) fl(1)] fl(2) by simp
    have hi: "\<forall>e \<in> set ?hi. cmp v e" using key [OF S(2)] S(1) by auto
    have a': "a = fs @ fl # ?hi @ v # rest"
      using split lo a by (metis append.assoc append_Cons append_Nil)
    have i': "i = Suc (length fs + length ?hi)"
      using arg_cong [OF split, of length] lo i by simp
    have "unguarded_linear_insert cmp a i = shift_insert cmp v a i"
      by (simp add: unguarded_linear_insert_def ai)
    also have "\<dots> = Some (fs @ fl # v # ?hi @ rest)"
      unfolding a' i' by (rule shift_insert_spec [where cmp = cmp and v = v, OF hi nfl])
    also have "fs @ fl # v # ?hi @ rest = ?lo @ v # ?hi @ rest" by (simp add: lo)
    finally show ?thesis using False ai a0 by simp
  qed
qed

lemma placed_properties:
  fixes f :: "'a \<Rightarrow> 'k::linorder"
  assumes "sorted (map f pre)"
    and q_def: "q = filter (\<lambda>e. f e \<le> f v) pre @ v # filter (\<lambda>e. f v < f e) pre"
  shows "mset q = add_mset v (mset pre)"
    and "sorted (map f q)"
    and "filter (\<lambda>x. f k = f x) q = filter (\<lambda>x. f k = f x) (pre @ [v])"
    and "length q = Suc (length pre)"
proof -
  let ?lo = "filter (\<lambda>e. f e \<le> f v) pre"
  let ?hi = "filter (\<lambda>e. f v < f e) pre"
  have split: "pre = ?lo @ ?hi" by (rule sorted_split [OF assms(1)])
  have "mset pre = mset ?lo + mset ?hi" using arg_cong [OF split, of mset] by simp
  then show "mset q = add_mset v (mset pre)" by (simp add: q_def)
  have "sorted (map f ?lo)" "sorted (map f ?hi)"
    using assms(1) by (simp_all add: sorted_filter)
  then show "sorted (map f q)"
    by (auto simp: q_def sorted_append less_imp_le intro: order_trans)
  have "filter (\<lambda>x. f k = f x) pre = filter (\<lambda>x. f k = f x) ?lo @ filter (\<lambda>x. f k = f x) ?hi"
    using arg_cong [OF split, of "filter (\<lambda>x. f k = f x)"] by simp
  moreover have "filter (\<lambda>x. f k = f x) ?hi = []" if "f k = f v"
    using that by (auto simp: filter_empty_conv)
  ultimately show "filter (\<lambda>x. f k = f x) q = filter (\<lambda>x. f k = f x) (pre @ [v])"
    by (simp add: q_def)
  have "length pre = length ?lo + length ?hi" using arg_cong [OF split, of length] by simp
  then show "length q = Suc (length pre)" by (simp add: q_def)
qed


lemma insertion_sort_prefix:
  fixes f :: "'a \<Rightarrow> 'k::linorder"
  assumes key: "\<And>a b. a \<in> S \<Longrightarrow> b \<in> S \<Longrightarrow> cmp a b \<longleftrightarrow> f a < f b"
    and S: "set xs \<subseteq> S"
    and k: "1 \<le> k" "k \<le> length xs"
  shows "\<exists>pre. fold (\<lambda>i r. case r of
                   None \<Rightarrow> None
                 | Some a \<Rightarrow>
                     if cmp (a ! i) (a ! 0)
                     then Some (take 0 a @ a ! i # take (i - 0) (drop 0 a) @ drop (Suc i) a)
                     else unguarded_linear_insert cmp a i) [0 + 1..<k] (Some xs)
                = Some (pre @ drop k xs)
           \<and> length pre = k \<and> mset pre = mset (take k xs) \<and> sorted (map f pre)
           \<and> (\<forall>c. filter (\<lambda>x. f c = f x) pre = filter (\<lambda>x. f c = f x) (take k xs))"
  (is "\<exists>pre. fold ?step [0 + 1..<k] (Some xs) = Some (pre @ drop k xs) \<and> ?P pre k")
  using k
proof (induction k)
  case 0
  then show ?case by simp
next
  case (Suc k)
  show ?case
  proof (cases "k = 0")
    case True
    from Suc.prems have "xs \<noteq> []" by auto
    then have "take 1 xs @ drop 1 xs = xs" "length (take 1 xs) = 1" "sorted (map f (take 1 xs))"
      by (cases xs; simp)+
    then show ?thesis using True by (intro exI [of _ "take 1 xs"]) simp
  next
    case False
    with Suc.prems have k: "1 \<le> k" "k \<le> length xs" "k < length xs" by simp_all
    from Suc.IH [OF k(1,2)] obtain pre where
      f: "fold ?step [0 + 1..<k] (Some xs) = Some (pre @ drop k xs)"
      and l: "length pre = k" and m: "mset pre = mset (take k xs)"
      and s: "sorted (map f pre)"
      and st: "\<forall>c. filter (\<lambda>x. f c = f x) pre = filter (\<lambda>x. f c = f x) (take k xs)"
      by blast
    let ?v = "xs ! k"
    let ?q = "filter (\<lambda>e. f e \<le> f ?v) pre @ ?v # filter (\<lambda>e. f ?v < f e) pre"
    have d: "drop k xs = ?v # drop (Suc k) xs" by (rule Cons_nth_drop_Suc [OF k(3), symmetric])
    have t: "take (Suc k) xs = take k xs @ [?v]" by (rule take_Suc_conv_app_nth [OF k(3)])
    have "set pre = set (take k xs)" using m by (rule mset_eq_setD)
    then have pS: "set pre \<subseteq> S" using S set_take_subset [of k xs] by blast
    have vS: "?v \<in> S" using S k(3) by auto
    have ne: "pre \<noteq> []" using l k(1) by auto
    have a: "pre @ drop k xs = pre @ ?v # drop (Suc k) xs" by (simp only: d)
    have "fold ?step [0 + 1..<Suc k] (Some xs) = ?step k (fold ?step [0 + 1..<k] (Some xs))"
      using k(1) by simp
    also have "\<dots> = ?step k (Some (pre @ drop k xs))" by (simp only: f)
    also have "\<dots> = Some (filter (\<lambda>e. f e \<le> f ?v) pre @ ?v # filter (\<lambda>e. f ?v < f e) pre
                          @ drop (Suc k) xs)"
      using insert_step [where cmp = cmp and f = f and S = S, OF key pS vS ne s a l [symmetric]]
      by simp
    finally have 1: "fold ?step [0 + 1..<Suc k] (Some xs) = Some (?q @ drop (Suc k) xs)" by simp
    note pp = placed_properties [where v = "?v", OF s refl]
    have 2: "length ?q = Suc k" using pp(4) l by simp
    have 3: "mset ?q = mset (take (Suc k) xs)" using pp(1) m by (simp add: t)
    have 4: "sorted (map f ?q)" by (rule pp(2))
    have 5: "\<forall>c. filter (\<lambda>x. f c = f x) ?q = filter (\<lambda>x. f c = f x) (take (Suc k) xs)"
    proof
      fix c
      from st have "filter (\<lambda>x. f c = f x) pre = filter (\<lambda>x. f c = f x) (take k xs)" ..
      with pp(3) [of c]
      show "filter (\<lambda>x. f c = f x) ?q = filter (\<lambda>x. f c = f x) (take (Suc k) xs)"
        by (simp add: t)
    qed
    from 1 2 3 4 5 show ?thesis by blast
  qed
qed

lemma introsort_loop_small:
  "length a \<le> 16 \<Longrightarrow> introsort_loop cmp a 0 (length a) d = Some a"
  by (cases d) simp_all

lemma std_sort_small:
  fixes f :: "'a \<Rightarrow> 'k::linorder"
  assumes key: "\<And>a b. a \<in> S \<Longrightarrow> b \<in> S \<Longrightarrow> cmp a b \<longleftrightarrow> f a < f b"
    and S: "set xs \<subseteq> S"
    and n: "length xs \<le> 16"
  shows "\<exists>ys. std_sort cmp xs = Some ys \<and> mset ys = mset xs \<and> sorted (map f ys)
           \<and> (\<forall>c. filter (\<lambda>x. f c = f x) ys = filter (\<lambda>x. f c = f x) xs)"
proof (cases "xs = []")
  case True
  then show ?thesis by (simp add: std_sort_def)
next
  case False
  then have k: "1 \<le> length xs" "length xs \<le> length xs" by (simp_all add: Suc_le_eq)
  from insertion_sort_prefix [where cmp = cmp and f = f and S = S, OF key S k]
  obtain pre where
    f: "insertion_sort cmp xs 0 (length xs) = Some pre"
    and p: "mset pre = mset xs" "sorted (map f pre)"
      "\<forall>c. filter (\<lambda>x. f c = f x) pre = filter (\<lambda>x. f c = f x) xs"
    using False by (auto simp: insertion_sort_def)
  have "std_sort cmp xs = Some pre"
    using False n f by (simp add: std_sort_def introsort_loop_small final_insertion_sort_def)
  with p show ?thesis by blast
qed

lemma std_sort_small_sort_key:
  fixes f :: "'a \<Rightarrow> 'k::linorder"
  assumes key: "\<And>a b. a \<in> S \<Longrightarrow> b \<in> S \<Longrightarrow> cmp a b \<longleftrightarrow> f a < f b"
    and S: "set xs \<subseteq> S"
    and n: "length xs \<le> 16"
  shows "std_sort cmp xs = Some (sort_key f xs)"
proof -
  from std_sort_small [where cmp = cmp and f = f and S = S, OF key S n] obtain ys where
    ys: "std_sort cmp xs = Some ys" "mset ys = mset xs" "sorted (map f ys)"
      "\<forall>c. filter (\<lambda>x. f c = f x) ys = filter (\<lambda>x. f c = f x) xs" by blast
  have "sort_key f xs = ys"
    by (rule properties_for_sort_key [OF ys(2) _ ys(3)]) (simp add: ys(4))
  with ys(1) show ?thesis by simp
qed

lemma sort_key_stable_sorted:
  fixes f :: "'a \<Rightarrow> 'k::linorder"
  assumes key: "\<And>a b. a \<in> set xs \<Longrightarrow> b \<in> set xs \<Longrightarrow> cmp a b \<longleftrightarrow> f a < f b"
  shows "stable_sorted cmp xs (sort_key f xs)"
proof -
  let ?ys = "sort_key f xs"
  have set: "set ?ys = set xs" by simp
  have "sorted (map f ?ys)" by (rule sorted_sort_key)
  then have "sorted_wrt (\<lambda>a b. f a \<le> f b) ?ys" by (simp only: sorted_map)
  then have 1: "sorted_wrt (\<lambda>a b. \<not> cmp b a) ?ys"
    by (rule sorted_wrt_mono_rel [rotated]) (simp add: key not_less)
  have 2: "filter (\<lambda>x. \<not> cmp x k \<and> \<not> cmp k x) ?ys = filter (\<lambda>x. \<not> cmp x k \<and> \<not> cmp k x) xs"
    if k: "k \<in> set xs" for k
  proof -
    have "filter (\<lambda>x. \<not> cmp x k \<and> \<not> cmp k x) ?ys = filter (\<lambda>x. f x = f k) ?ys"
      by (rule filter_cong [OF refl]) (use k key in auto)
    also have "\<dots> = filter (\<lambda>x. f x = f k) xs" by (rule sort_key_stable)
    also have "\<dots> = filter (\<lambda>x. \<not> cmp x k \<and> \<not> cmp k x) xs"
      by (rule filter_cong [OF refl]) (use k key in auto)
    finally show ?thesis .
  qed
  from 1 2 show ?thesis by (simp add: stable_sorted_def)
qed

lemma by_cpu_key:
  assumes "\<exists>r. cpuPercent a = Fin r" and "\<exists>r. cpuPercent b = Fin r"
  shows "by_cpu a b \<longleftrightarrow>
           (case cpuPercent a of Fin r \<Rightarrow> - r | _ \<Rightarrow> 0) < (case cpuPercent b of Fin r \<Rightarrow> - r | _ \<Rightarrow> 0)"
  using assms by (auto simp: by_cpu_def)

lemma sorted_procs_by_cpu_stable:
  assumes n: "length procs \<le> 16" and fin: "\<forall>p \<in> set procs. \<exists>r. cpuPercent p = Fin r"
  shows "\<exists>ys. sorted_procs True procs = Some ys \<and> stable_sorted by_cpu procs ys"
proof -
  let ?f = "\<lambda>p. case cpuPercent p of Fin r \<Rightarrow> - r | _ \<Rightarrow> (0::rat)"
  have key: "by_cpu a b \<longleftrightarrow> ?f a < ?f b" if "a \<in> set procs" "b \<in> set procs" for a b
    using that fin by (intro by_cpu_key) auto
  have "std_sort by_cpu procs = Some (sort_key ?f procs)"
    by (rule std_sort_small_sort_key [where S = "set procs", OF key subset_refl n])
  moreover have "stable_sorted by_cpu procs (sort_key ?f procs)"
    by (rule sort_key_stable_sorted [OF key])
  ultimately show ?thesis by (simp add: sorted_procs_def)
qed

lemma sorted_procs_by_pid_stable:
  assumes n: "length procs \<le> 16"
  shows "\<exists>ys. sorted_procs False procs = Some ys \<and> stable_sorted by_pid procs ys"
proof -
  have key: "by_pid a b \<longleftrightarrow> pid a < pid b" for a b by (simp add: by_pid_def)
  have "std_sort by_pid procs = Some (sort_key pid procs)"
    by (rule std_sort_small_sort_key [where S = UNIV, OF key subset_UNIV n])
  moreover have "stable_sorted by_pid procs (sort_key pid procs)"
    by (rule sort_key_stable_sorted [OF key])
  ultimately show ?thesis by (simp add: sorted_procs_def)
qed

lemma pidStr_of_letters:
  "pidStr_of ''q'' = []" "pidStr_of ''Q'' = []" "pidStr_of ''s'' = []" "pidStr_of ''S'' = []"
  by (simp_all add: pidStr_of_def isdigit_def)

lemma command_keeps_rolling_state:
  "vars (fst (snd (command OpenProcess_TERMINATE line st))) = vars st
   \<and> prevTick (fst (snd (command OpenProcess_TERMINATE line st))) = prevTick st"
  by (simp add: command_def Let_def)

section \<open>Properties of the specification\<close>

text \<open>
  C1. At \<open>prevTick = 0xFFFFFFF0\<close> and \<open>curTick = 0x0000000A\<close> the tick counter has advanced
  by 26 ms (the difference modulo \<open>2 ^ 32\<close>), and the elapsed time that line 74 computes
  is 25.
\<close>

theorem deltaMs_wraparound_off_by_one:
  "deltaMs 0xFFFFFFF0 0x0000000A = 25 \<and> deltaMs 0xFFFFFFF0 0x0000000A \<noteq> 26
   \<and> (0x0000000A - 0xFFFFFFF0 :: DWORD) = 26"
  by (simp add: deltaMs_def)

text \<open>
  C2, as stated: the descending sort keeps entries of equal percentage in the order of the
  enumeration, for every input. A cycle on a host with seventeen processes returns
  seventeen entries at 0 percent, with the identifiers 1 to 17 in this order, and the sort
  of line 176 leaves the identifiers in the order
  9, 17, 16, 15, 14, 13, 12, 11, 10, 1, 8, 7, 6, 5, 4, 3, 2.
\<close>

theorem sort_not_stable_counterexample:
  "fst (sample host17 7000 \<lparr>vars = no_times, prevTick = 5000, sortByCPU = True\<rparr>) = idle17
   \<and> map cpuPercent idle17 = replicate 17 (Fin 0)
   \<and> map pid idle17 = [1, 2, 3, 4, 5, 6, 7, 8, 9, 10, 11, 12, 13, 14, 15, 16, 17]
   \<and> map_option (map pid) (sorted_procs True idle17)
       = Some [9, 17, 16, 15, 14, 13, 12, 11, 10, 1, 8, 7, 6, 5, 4, 3, 2]"
proof -
  have 0: "fst (sample host17 7000 \<lparr>vars = no_times, prevTick = 5000, sortByCPU = True\<rparr>) = idle17"
    by code_simp
  have 1: "map cpuPercent idle17 = replicate 17 (Fin 0)" by code_simp
  have 2: "map pid idle17 = [1, 2, 3, 4, 5, 6, 7, 8, 9, 10, 11, 12, 13, 14, 15, 16, 17]"
    by code_simp
  have 3: "map_option (map pid) (sorted_procs True idle17)
       = Some [9, 17, 16, 15, 14, 13, 12, 11, 10, 1, 8, 7, 6, 5, 4, 3, 2]" by code_simp
  from 0 1 2 3 show ?thesis by blast
qed

text \<open>
  C2, amended. For every list of at most 16 entries the descending sort is stable: it
  leaves the entries in descending order of percentage, with entries of equal percentage
  in the order of the enumeration; so is the ascending sort by identifier, and so is the
  descending sort of the list of a cycle that enumerates at most 16 processes. The
  percentages 10, 10 and 5 of \<open>A\<close>, \<open>B\<close> and \<open>C\<close> come out as \<open>A\<close>, \<open>B\<close>, \<open>C\<close>, and the
  identifiers 30, 10 and 20 come out as 10, 20 and 30.
\<close>

theorem sort_stable_up_to_16:
  "(length procs \<le> 16 \<longrightarrow> (\<forall>p \<in> set procs. \<exists>r. cpuPercent p = Fin r) \<longrightarrow>
      (\<exists>ys. sorted_procs True procs = Some ys \<and> stable_sorted by_cpu procs ys))
   \<and> (length procs \<le> 16 \<longrightarrow>
      (\<exists>ys. sorted_procs False procs = Some ys \<and> stable_sorted by_pid procs ys))
   \<and> (length (enumerated env) \<le> 16 \<longrightarrow>
      (\<exists>ys. sorted_procs True (fst (sample env tick st)) = Some ys
            \<and> stable_sorted by_cpu (fst (sample env tick st)) ys))
   \<and> sorted_procs True [procA, procB, procC] = Some [procA, procB, procC]
   \<and> sorted_procs False [procA, procB, procC] = Some [procB, procC, procA]"
proof -
  have 3: "\<exists>ys. sorted_procs True (fst (sample env tick st)) = Some ys
            \<and> stable_sorted by_cpu (fst (sample env tick st)) ys"
    if "length (enumerated env) \<le> 16"
  proof (rule sorted_procs_by_cpu_stable)
    show "length (fst (sample env tick st)) \<le> 16"
      using that by (simp add: sample_unfold SnapshotProcesses_frame(2))
    show "\<forall>p \<in> set (fst (sample env tick st)). \<exists>r. cpuPercent p = Fin r"
      using SnapshotProcesses_nonneg unfolding sample_unfold fst_conv by blast
  qed
  have 4: "sorted_procs True [procA, procB, procC] = Some [procA, procB, procC]" by code_simp
  have 5: "sorted_procs False [procA, procB, procC] = Some [procB, procC, procA]" by code_simp
  from sorted_procs_by_cpu_stable sorted_procs_by_pid_stable 3 4 5 show ?thesis by blast
qed

theorem sort_stable_up_to_16_witness:
  "length [procA, procB, procC] \<le> 16
   \<and> map cpuPercent [procA, procB, procC] = [Fin 10, Fin 10, Fin 5]
   \<and> sorted_procs True [procA, procB, procC] = Some [procA, procB, procC]
   \<and> stable_sorted by_cpu [procA, procB, procC] [procA, procB, procC]
   \<and> map pid [procA, procB, procC] = [30, 10, 20]
   \<and> map_option (map pid) (sorted_procs False [procA, procB, procC]) = Some [10, 20, 30]
   \<and> stable_sorted by_pid [procA, procB, procC] [procB, procC, procA]"
proof -
  note t = sort_stable_up_to_16 [of "[procA, procB, procC]"]
  have l: "length [procA, procB, procC] \<le> 16" by simp
  have c: "map cpuPercent [procA, procB, procC] = [Fin 10, Fin 10, Fin 5]"
    "map pid [procA, procB, procC] = [30, 10, 20]" "map pid [procB, procC, procA] = [10, 20, 30]"
    by (simp_all add: procA_def procB_def procC_def)
  have f: "\<forall>p \<in> set [procA, procB, procC]. \<exists>r. cpuPercent p = Fin r"
    by (simp add: procA_def procB_def procC_def)
  from t have e: "sorted_procs True [procA, procB, procC] = Some [procA, procB, procC]"
    "sorted_procs False [procA, procB, procC] = Some [procB, procC, procA]" by blast+
  from t l f e(1) have 1: "stable_sorted by_cpu [procA, procB, procC] [procA, procB, procC]"
    by auto
  from t l e(2) have 2: "stable_sorted by_pid [procA, procB, procC] [procB, procC, procA]"
    by auto
  from l c e 1 2 show ?thesis by simp
qed

text \<open>
  C3. Every percentage that a call of \<open>SnapshotProcesses\<close> reports is a finite number that
  is at least 0, so never a NaN, whatever the counters, the ticks and the processor count
  are. When the counter read for an entry is less than the counter that the previous map
  holds for its identifier, the percentage of that entry is 0.
\<close>

theorem cpuPercent_nonnegative:
  "(\<forall>p \<in> set (fst (SnapshotProcesses env \<sigma> prevTimes tick0 tick1 outNewTimes)).
      \<exists>r. cpuPercent p = Fin r \<and> 0 \<le> r)
   \<and> (prevTimes \<noteq> outNewTimes \<longrightarrow> i < length (enumerated env) \<longrightarrow>
        read_counter env i (th32ProcessID (enumerated env ! i)) = Some t100ns \<longrightarrow>
        \<sigma> prevTimes (th32ProcessID (enumerated env ! i)) = Some prev100ns \<longrightarrow>
        t100ns < prev100ns \<longrightarrow>
        cpuPercent (fst (SnapshotProcesses env \<sigma> prevTimes tick0 tick1 outNewTimes) ! i) = Fin 0)"
proof (intro conjI ballI impI)
  fix p assume "p \<in> set (fst (SnapshotProcesses env \<sigma> prevTimes tick0 tick1 outNewTimes))"
  then show "\<exists>r. cpuPercent p = Fin r \<and> 0 \<le> r" by (rule SnapshotProcesses_nonneg)
next
  assume a: "prevTimes \<noteq> outNewTimes" "i < length (enumerated env)"
    "read_counter env i (th32ProcessID (enumerated env ! i)) = Some t100ns"
    "\<sigma> prevTimes (th32ProcessID (enumerated env ! i)) = Some prev100ns" "t100ns < prev100ns"
  from a(5) have n: "\<not> prev100ns < t100ns" by simp
  show "cpuPercent (fst (SnapshotProcesses env \<sigma> prevTimes tick0 tick1 outNewTimes) ! i) = Fin 0"
    unfolding SnapshotProcesses_nth [OF a(1,2)]
    by (rule sampled_no_advance [OF _ _ n numCores_ge_1]) (simp_all add: a)
qed

theorem cpuPercent_nonnegative_witness:
  "Obj_prevTimes \<noteq> Obj_curTimes \<and> (1::nat) < length (enumerated host3)
   \<and> read_counter host3 1 (th32ProcessID (enumerated host3 ! 1)) = Some 400000
   \<and> old_times Obj_prevTimes (th32ProcessID (enumerated host3 ! 1)) = Some 900000
   \<and> (400000 :: ull) < 900000
   \<and> cpuPercent (fst (SnapshotProcesses host3 old_times Obj_prevTimes 5000 7000 Obj_curTimes) ! 1) = Fin 0"
  using cpuPercent_nonnegative [of host3 old_times Obj_prevTimes 5000 7000 Obj_curTimes 1 400000 900000]
  by (simp add: host3_enumerated host3_read old_times_def)

text \<open>
  C4. When the elapsed time computed for a call is 0, every percentage reported by that
  call is 0; it is 0 in particular when the previous and the current tick are the same,
  as in the initial snapshot.
\<close>

theorem zero_elapsed_zero_percent:
  "(deltaMs tick0 tick1 = 0 \<longrightarrow>
      (\<forall>p \<in> set (fst (SnapshotProcesses env \<sigma> prevTimes tick0 tick1 outNewTimes)).
         cpuPercent p = Fin 0))
   \<and> (\<forall>p \<in> set (fst (SnapshotProcesses env \<sigma> prevTimes tick0 tick0 outNewTimes)).
         cpuPercent p = Fin 0)"
proof -
  have z: "\<forall>p \<in> set (fst (SnapshotProcesses env \<sigma> prevTimes a b outNewTimes)). cpuPercent p = Fin 0"
    if "deltaMs a b = 0" for a b
    by (auto simp: SnapshotProcesses_zero_elapsed [OF that])
  have "deltaMs tick0 tick0 = 0" by (simp add: deltaMs_def)
  with z show ?thesis by blast
qed

theorem zero_elapsed_zero_percent_witness:
  "deltaMs 5000 5000 = 0
   \<and> map cpuPercent (fst (SnapshotProcesses host3 old_times Obj_prevTimes 5000 5000 Obj_curTimes))
       = [Fin 0, Fin 0, Fin 0]
   \<and> deltaMs 0xFFFFFFFF 0 = 0
   \<and> map cpuPercent (fst (SnapshotProcesses host3 old_times Obj_prevTimes 0xFFFFFFFF 0 Obj_curTimes))
       = [Fin 0, Fin 0, Fin 0]"
proof -
  have d: "deltaMs 5000 5000 = 0" "deltaMs 0xFFFFFFFF 0 = 0" by (simp_all add: deltaMs_def)
  have l: "length (fst (SnapshotProcesses host3 old_times Obj_prevTimes t0 t1 Obj_curTimes)) = 3"
    for t0 t1 by (simp add: SnapshotProcesses_frame(2) host3_enumerated)
  have "map cpuPercent xs = [Fin 0, Fin 0, Fin 0]"
    if "length xs = 3" and "\<forall>p \<in> set xs. cpuPercent p = Fin 0" for xs :: "ProcInfo list"
    using that by (auto simp: length_Suc_conv numeral_3_eq_3)
  with l d
    zero_elapsed_zero_percent [of 5000 5000 host3 old_times Obj_prevTimes Obj_curTimes]
    zero_elapsed_zero_percent [of "0xFFFFFFFF" 0 host3 old_times Obj_prevTimes Obj_curTimes]
  show ?thesis by blast
qed

text \<open>
  C5. An entry whose identifier has no counter in the previous map and whose counter is
  read has percentage 0, and the written map holds a counter read in this call for that
  identifier: the one read for this entry when no identifier is enumerated twice.
\<close>

theorem new_identifier_zero_and_recorded:
  assumes "prevTimes \<noteq> outNewTimes" and "i < length (enumerated env)"
    and "p = th32ProcessID (enumerated env ! i)"
    and "\<sigma> prevTimes p = None"
    and "read_counter env i p = Some t100ns"
  shows "pid (fst (SnapshotProcesses env \<sigma> prevTimes tick0 tick1 outNewTimes) ! i) = p
     \<and> cpuPercent (fst (SnapshotProcesses env \<sigma> prevTimes tick0 tick1 outNewTimes) ! i) = Fin 0
     \<and> (\<exists>j t'. i \<le> j \<and> j < length (enumerated env) \<and> th32ProcessID (enumerated env ! j) = p
            \<and> read_counter env j p = Some t'
            \<and> snd (SnapshotProcesses env \<sigma> prevTimes tick0 tick1 outNewTimes) outNewTimes p = Some t')
     \<and> (distinct (map th32ProcessID (enumerated env)) \<longrightarrow>
          snd (SnapshotProcesses env \<sigma> prevTimes tick0 tick1 outNewTimes) outNewTimes p = Some t100ns)"
proof -
  let ?ps = "map th32ProcessID (enumerated env)"
  let ?n = "length (enumerated env)"
  have pi: "?ps ! i = p" using assms(2,3) by simp
  have e: "fst (SnapshotProcesses env \<sigma> prevTimes tick0 tick1 outNewTimes) ! i = entry (enumerated env ! i)"
    unfolding SnapshotProcesses_nth [OF assms(1,2)]
    by (rule sampled_new) (simp add: assms(3) [symmetric] assms(4))
  have r: "read_counter env i (?ps ! i) = Some t100ns" using assms(5) pi by simp
  from recorded_read [OF assms(2) r, of "\<sigma> outNewTimes"] obtain j t' where
    j: "i \<le> j" "j < ?n" "?ps ! j = ?ps ! i" "read_counter env j (?ps ! i) = Some t'"
       "recorded env ?ps ?n (\<sigma> outNewTimes) (?ps ! i) = Some t'" by blast
  have 3: "\<exists>j t'. i \<le> j \<and> j < ?n \<and> th32ProcessID (enumerated env ! j) = p
            \<and> read_counter env j p = Some t'
            \<and> snd (SnapshotProcesses env \<sigma> prevTimes tick0 tick1 outNewTimes) outNewTimes p = Some t'"
    using j pi by (intro exI [of _ j] exI [of _ t']) (simp add: SnapshotProcesses_frame(1))
  have 4: "snd (SnapshotProcesses env \<sigma> prevTimes tick0 tick1 outNewTimes) outNewTimes p = Some t100ns"
    if "distinct ?ps"
    using recorded_distinct [OF that assms(2) _ r, of "\<sigma> outNewTimes"] pi
    by (simp add: SnapshotProcesses_frame(1))
  from e 3 4 assms(3) show ?thesis by simp
qed

theorem new_identifier_zero_and_recorded_witness:
  "Obj_prevTimes \<noteq> Obj_curTimes \<and> (1::nat) < length (enumerated host3)
   \<and> 100 = th32ProcessID (enumerated host3 ! 1)
   \<and> no_times Obj_prevTimes 100 = None
   \<and> read_counter host3 1 100 = Some 400000
   \<and> distinct (map th32ProcessID (enumerated host3))
   \<and> cpuPercent (fst (SnapshotProcesses host3 no_times Obj_prevTimes 5000 7000 Obj_curTimes) ! 1) = Fin 0
   \<and> snd (SnapshotProcesses host3 no_times Obj_prevTimes 5000 7000 Obj_curTimes) Obj_curTimes 100
       = Some 400000"
proof -
  have h: "Obj_prevTimes \<noteq> Obj_curTimes" "(1::nat) < length (enumerated host3)"
    "100 = th32ProcessID (enumerated host3 ! 1)" "no_times Obj_prevTimes 100 = None"
    "read_counter host3 1 100 = Some 400000"
    by (simp_all add: host3_enumerated host3_read no_times_def)
  note t = new_identifier_zero_and_recorded
    [where \<sigma> = no_times and ?tick0.0 = 5000 and ?tick1.0 = 7000, OF h]
  from t have "cpuPercent (fst (SnapshotProcesses host3 no_times Obj_prevTimes 5000 7000 Obj_curTimes) ! 1) = Fin 0"
    by blast
  moreover from t host3_distinct
  have "snd (SnapshotProcesses host3 no_times Obj_prevTimes 5000 7000 Obj_curTimes) Obj_curTimes 100
       = Some 400000" by blast
  ultimately show ?thesis using h host3_distinct by blast
qed

text \<open>
  C6. An entry whose counter cannot be read, because \<open>OpenProcess\<close> or \<open>GetProcessTimes\<close>
  fails, is in the returned list with percentage 0, and the call leaves the written map as
  it was at that identifier: nothing is recorded for it.
\<close>

theorem failed_read_zero_and_unrecorded:
  assumes "i < length (enumerated env)"
    and "p = th32ProcessID (enumerated env ! i)"
    and "read_counter env i p = None"
  shows "length (fst (SnapshotProcesses env \<sigma> prevTimes tick0 tick1 outNewTimes)) = length (enumerated env)
     \<and> fst (SnapshotProcesses env \<sigma> prevTimes tick0 tick1 outNewTimes) ! i
         = \<lparr>pid = p, name = szExeFile (enumerated env ! i), cpuPercent = Fin 0\<rparr>
     \<and> ((\<forall>j < length (enumerated env).
            th32ProcessID (enumerated env ! j) = p \<longrightarrow> read_counter env j p = None) \<longrightarrow>
          snd (SnapshotProcesses env \<sigma> prevTimes tick0 tick1 outNewTimes) outNewTimes p = \<sigma> outNewTimes p)
     \<and> (distinct (map th32ProcessID (enumerated env)) \<longrightarrow>
          snd (SnapshotProcesses env \<sigma> prevTimes tick0 tick1 outNewTimes) outNewTimes p = \<sigma> outNewTimes p)"
proof -
  let ?ps = "map th32ProcessID (enumerated env)"
  let ?n = "length (enumerated env)"
  have 2: "fst (SnapshotProcesses env \<sigma> prevTimes tick0 tick1 outNewTimes) ! i
         = \<lparr>pid = p, name = szExeFile (enumerated env ! i), cpuPercent = Fin 0\<rparr>"
    using SnapshotProcesses_failed_read [of i env \<sigma> prevTimes tick0 tick1 outNewTimes] assms
    by (simp add: entry_def)
  have 3: "snd (SnapshotProcesses env \<sigma> prevTimes tick0 tick1 outNewTimes) outNewTimes p = \<sigma> outNewTimes p"
    if u: "\<forall>j < ?n. th32ProcessID (enumerated env ! j) = p \<longrightarrow> read_counter env j p = None"
  proof -
    have "recorded env ?ps ?n (\<sigma> outNewTimes) p = \<sigma> outNewTimes p"
      by (rule recorded_unread) (use u in simp)
    then show ?thesis by (simp add: SnapshotProcesses_frame(1))
  qed
  have 4: "\<forall>j < ?n. th32ProcessID (enumerated env ! j) = p \<longrightarrow> read_counter env j p = None"
    if d: "distinct ?ps"
  proof (intro allI impI)
    fix j assume j: "j < ?n" "th32ProcessID (enumerated env ! j) = p"
    with assms(1,2) have "?ps ! j = ?ps ! i" by simp
    moreover from d j(1) assms(1) have "?ps ! j = ?ps ! i \<longleftrightarrow> j = i"
      by (intro nth_eq_iff_index_eq) simp_all
    ultimately have "j = i" by simp
    with assms(3) show "read_counter env j p = None" by simp
  qed
  from 2 3 4 show ?thesis by (simp add: SnapshotProcesses_frame(2))
qed

theorem failed_read_zero_and_unrecorded_witness:
  "(0::nat) < length (enumerated host3) \<and> 4 = th32ProcessID (enumerated host3 ! 0)
   \<and> read_counter host3 0 4 = None
   \<and> (2::nat) < length (enumerated host3) \<and> 200 = th32ProcessID (enumerated host3 ! 2)
   \<and> read_counter host3 2 200 = None
   \<and> distinct (map th32ProcessID (enumerated host3))
   \<and> fst (SnapshotProcesses host3 old_times Obj_prevTimes 5000 7000 Obj_curTimes) ! 0
       = \<lparr>pid = 4, name = ''System'', cpuPercent = Fin 0\<rparr>
   \<and> snd (SnapshotProcesses host3 old_times Obj_prevTimes 5000 7000 Obj_curTimes) Obj_curTimes 4 = None
   \<and> fst (SnapshotProcesses host3 old_times Obj_prevTimes 5000 7000 Obj_curTimes) ! 2
       = \<lparr>pid = 200, name = ''b.exe'', cpuPercent = Fin 0\<rparr>
   \<and> snd (SnapshotProcesses host3 old_times Obj_prevTimes 5000 7000 Obj_curTimes) Obj_curTimes 200 = None"
proof -
  have h0: "(0::nat) < length (enumerated host3)" "4 = th32ProcessID (enumerated host3 ! 0)"
    "read_counter host3 0 4 = None"
    by (simp_all add: host3_enumerated host3_read)
  have h2: "(2::nat) < length (enumerated host3)" "200 = th32ProcessID (enumerated host3 ! 2)"
    "read_counter host3 2 200 = None"
    by (simp_all add: host3_enumerated host3_read)
  have n: "szExeFile (enumerated host3 ! 0) = ''System''" "szExeFile (enumerated host3 ! 2) = ''b.exe''"
    by (simp_all add: host3_enumerated)
  note t0 = failed_read_zero_and_unrecorded
    [where \<sigma> = old_times and prevTimes = Obj_prevTimes and outNewTimes = Obj_curTimes
       and ?tick0.0 = 5000 and ?tick1.0 = 7000, OF h0]
  note t2 = failed_read_zero_and_unrecorded
    [where \<sigma> = old_times and prevTimes = Obj_prevTimes and outNewTimes = Obj_curTimes
       and ?tick0.0 = 5000 and ?tick1.0 = 7000, OF h2]
  from t0 have "fst (SnapshotProcesses host3 old_times Obj_prevTimes 5000 7000 Obj_curTimes) ! 0
       = \<lparr>pid = 4, name = ''System'', cpuPercent = Fin 0\<rparr>" unfolding n by blast
  moreover from t0 host3_distinct
  have "snd (SnapshotProcesses host3 old_times Obj_prevTimes 5000 7000 Obj_curTimes) Obj_curTimes 4 = None"
    unfolding old_times_simps by blast
  moreover from t2 have "fst (SnapshotProcesses host3 old_times Obj_prevTimes 5000 7000 Obj_curTimes) ! 2
       = \<lparr>pid = 200, name = ''b.exe'', cpuPercent = Fin 0\<rparr>" unfolding n by blast
  moreover from t2 host3_distinct
  have "snd (SnapshotProcesses host3 old_times Obj_prevTimes 5000 7000 Obj_curTimes) Obj_curTimes 200 = None"
    unfolding old_times_simps by blast
  ultimately show ?thesis using h0 h2 host3_distinct by blast
qed

text \<open>
  C7. The list that a call returns has one entry for each enumerated process, in the order
  of the enumeration, and the written map gains no identifier that was not enumerated.
  In \<open>main\<close> the written map is empty before the call, so after a cycle (and after the
  initial snapshot) the previous map holds enumerated identifiers only: an identifier
  that is no longer enumerated is gone.
\<close>

theorem one_entry_per_process_no_stale:
  "map pid (fst (SnapshotProcesses env \<sigma> prevTimes tick0 tick1 outNewTimes))
     = map th32ProcessID (enumerated env)
   \<and> map name (fst (SnapshotProcesses env \<sigma> prevTimes tick0 tick1 outNewTimes))
     = map szExeFile (enumerated env)
   \<and> dom (snd (SnapshotProcesses env \<sigma> prevTimes tick0 tick1 outNewTimes) outNewTimes)
     \<subseteq> dom (\<sigma> outNewTimes) \<union> set (map th32ProcessID (enumerated env))
   \<and> map pid (fst (sample env tick st)) = map th32ProcessID (enumerated env)
   \<and> dom (vars (snd (sample env tick st)) Obj_prevTimes) \<subseteq> set (map th32ProcessID (enumerated env))
   \<and> dom (vars (initial_snapshot env tick) Obj_prevTimes)
     \<subseteq> set (map th32ProcessID (enumerated env))"
proof -
  have "dom (vars (snd (sample env tick st)) Obj_prevTimes) \<subseteq> set (map th32ProcessID (enumerated env))"
    using dom_written [of env "(vars st)(Obj_curTimes := Map.empty)" Obj_prevTimes "prevTick st" tick
        Obj_curTimes]
    by (simp add: sample_unfold roll_def)
  moreover have "dom (vars (initial_snapshot env tick) Obj_prevTimes)
     \<subseteq> set (map th32ProcessID (enumerated env))"
    using dom_written [of env "\<lambda>obj. Map.empty" Obj_tmp tick tick Obj_prevTimes]
    by (simp add: initial_snapshot_unfold)
  moreover have "map pid (fst (sample env tick st)) = map th32ProcessID (enumerated env)"
    by (simp add: sample_unfold SnapshotProcesses_frame(3))
  moreover note SnapshotProcesses_frame(3,4) [of env \<sigma> prevTimes tick0 tick1 outNewTimes]
    dom_written [of env \<sigma> prevTimes tick0 tick1 outNewTimes]
  ultimately show ?thesis by blast
qed

theorem one_entry_per_process_no_stale_witness:
  "map pid (fst (sample host3 7000 \<lparr>vars = old_times, prevTick = 5000, sortByCPU = True\<rparr>))
     = [4, 100, 200]
   \<and> dom (vars (snd (sample host3 7000 \<lparr>vars = old_times, prevTick = 5000, sortByCPU = True\<rparr>))
           Obj_prevTimes) \<subseteq> {4, 100, 200}"
  using one_entry_per_process_no_stale
    [of host3 old_times Obj_prevTimes 5000 7000 Obj_curTimes 7000
        "\<lparr>vars = old_times, prevTick = 5000, sortByCPU = True\<rparr>"]
  unfolding host3_enumerated by simp

text \<open>
  C8. A counter that advances from 500000 to 1500000 while 1000 ms elapse on four
  processors gives the percentage 2.5: by the computation of lines 96 to 101, and in two
  consecutive cycles of \<open>main\<close> on a host with that one process.
\<close>

theorem end_to_end_percentage:
  "deltaMs 5000 6000 = 1000
   \<and> usage 1500000 500000 1000 4 = Fin (5 / 2)
   \<and> fst (sample (host 1500000) 6000 (snd (sample (host 500000) 5000 (initial_snapshot (host 0) 3000))))
       = [\<lparr>pid = 1234, name = ''a.exe'', cpuPercent = Fin (5 / 2)\<rparr>]"
proof -
  have 1: "deltaMs 5000 6000 = 1000" by (simp add: deltaMs_def)
  have 2: "usage 1500000 500000 1000 4 = Fin (5 / 2)" by code_simp
  have 3: "fst (sample (host 1500000) 6000 (snd (sample (host 500000) 5000 (initial_snapshot (host 0) 3000))))
       = [\<lparr>pid = 1234, name = ''a.exe'', cpuPercent = Fin (5 / 2)\<rparr>]" by code_simp
  from 1 2 3 show ?thesis by blast
qed

text \<open>
  C9. A command that asks to terminate an identifier for which \<open>OpenProcess\<close> answers the
  null handle, as it does for an identifier that no process has, is reported as
  \<open>Cannot open PID\<close> with the error code; the state of the session, with its previous map
  and previous tick, is unchanged, and the loop continues.
\<close>

theorem terminate_nonexistent_reported:
  assumes "trim line \<noteq> []" and "pidStr_of (trim line) \<noteq> []"
    and "stoul (pidStr_of (trim line)) = Inr p"
    and "OpenProcess_TERMINATE p = NullHandle e"
  shows "command OpenProcess_TERMINATE line st = (Continue, st, [CannotOpen p e])"
proof -
  from assms(2) have "trim line \<notin> {''q'', ''Q'', ''s'', ''S''}"
    using pidStr_of_letters by auto
  with assms show ?thesis
    by (simp add: command_def kill_def Let_def)
qed

theorem terminate_nonexistent_reported_witness:
  "trim ''k 99999'' \<noteq> [] \<and> pidStr_of (trim ''k 99999'') \<noteq> []
   \<and> stoul (pidStr_of (trim ''k 99999'')) = Inr 99999
   \<and> command (\<lambda>p. NullHandle 87) ''k 99999'' \<lparr>vars = old_times, prevTick = 5000, sortByCPU = True\<rparr>
       = (Continue, \<lparr>vars = old_times, prevTick = 5000, sortByCPU = True\<rparr>, [CannotOpen 99999 87])"
proof -
  have t: "trim ''k 99999'' = ''k 99999''" by code_simp
  have p: "pidStr_of ''k 99999'' = ''99999''" by code_simp
  have s: "stoul ''99999'' = Inr 99999" by code_simp
  have h: "trim ''k 99999'' \<noteq> []" "pidStr_of (trim ''k 99999'') \<noteq> []"
    "stoul (pidStr_of (trim ''k 99999'')) = Inr 99999"
    by (simp_all add: t p s)
  have n: "(\<lambda>p::DWORD. NullHandle 87) 99999 = NullHandle 87" by simp
  from terminate_nonexistent_reported [OF h n] h show ?thesis by blast
qed

text \<open>
  C10. A call of \<open>SnapshotProcesses\<close> changes no map object but the one it writes, so the
  previous map is as before whenever it is another object than the written map, which it
  is at both calls of \<open>main\<close>, whatever the enumeration and the reads answer. The call of
  a cycle leaves the previous map and the previous tick of the session as they were;
  the session replaces them afterwards, by the written map and the current tick.
\<close>

theorem previous_state_not_mutated:
  "(v \<noteq> outNewTimes \<longrightarrow> snd (SnapshotProcesses env \<sigma> prevTimes tick0 tick1 outNewTimes) v = \<sigma> v)
   \<and> snd (SnapshotProcesses env (\<lambda>obj. Map.empty) Obj_tmp tick tick Obj_prevTimes) Obj_tmp = Map.empty
   \<and> vars (snd (estimate env tick st)) Obj_prevTimes = vars st Obj_prevTimes
   \<and> prevTick (snd (estimate env tick st)) = prevTick st
   \<and> vars (snd (sample env tick st)) Obj_prevTimes = vars (snd (estimate env tick st)) Obj_curTimes
   \<and> vars (snd (sample env tick st)) Obj_curTimes = vars st Obj_prevTimes
   \<and> prevTick (snd (sample env tick st)) = tick"
  by (simp add: SnapshotProcesses_frame(1) estimate_unfold sample_unfold roll_def)

theorem previous_state_not_mutated_witness:
  "Obj_prevTimes \<noteq> Obj_curTimes
   \<and> snd (SnapshotProcesses host3 old_times Obj_prevTimes 5000 7000 Obj_curTimes) Obj_prevTimes
       = old_times Obj_prevTimes
   \<and> old_times Obj_prevTimes 100 = Some 900000
   \<and> snd (SnapshotProcesses host3 old_times Obj_prevTimes 5000 7000 Obj_curTimes) Obj_curTimes 100
       = Some 400000"
proof -
  have h: "Obj_prevTimes \<noteq> Obj_curTimes" by simp
  from previous_state_not_mutated
         [of Obj_prevTimes Obj_curTimes host3 old_times Obj_prevTimes 5000 7000]
  have "Obj_prevTimes \<noteq> Obj_curTimes \<longrightarrow>
      snd (SnapshotProcesses host3 old_times Obj_prevTimes 5000 7000 Obj_curTimes) Obj_prevTimes
       = old_times Obj_prevTimes" by (rule conjunct1)
  with h have 1: "snd (SnapshotProcesses host3 old_times Obj_prevTimes 5000 7000 Obj_curTimes) Obj_prevTimes
       = old_times Obj_prevTimes" by (rule rev_mp)
  have 2: "snd (SnapshotProcesses host3 old_times Obj_prevTimes 5000 7000 Obj_curTimes) Obj_curTimes 100
       = Some 400000"
    by (simp add: SnapshotProcesses_frame(1) host3_enumerated host3_read old_times_simps
          eval_nat_numeral)
  from h 1 2 show ?thesis by (simp add: old_times_simps)
qed

end
